theory Spec2Isabelle
  imports Main "HOL-Library.Word" "HOL-Library.Sublist"
begin

section \<open>Data model of \<open>collection.go\<close>\<close>

text \<open>
  The file \<open>collection.go\<close> is embedded function by function. Pointers to
  \<open>rootNodeLoc\<close> structs are addresses into an explicit heap, because the root
  compare-and-swap and the reference counts depend on their identity and on aliasing.
  Nodes are immutable once constructed, so node and item cells are values.
  A cell (\<open>nodeLoc\<close>, \<open>itemLoc\<close>) has the file location \<open>loc\<close>, a flag telling
  whether the in-memory pointer is set, and the value the cell denotes (what the pointer
  points to when it is set, what the store holds at \<open>loc\<close> otherwise).
\<close>

type_synonym byte = "8 word"
type_synonym bytes = "byte list"

text \<open>Go slices: \<open>None\<close> is the \<open>nil\<close> slice, \<open>Some []\<close> an empty non-nil slice.\<close>

definition len :: "bytes option \<Rightarrow> nat" where
  "len b = (case b of None \<Rightarrow> 0 | Some xs \<Rightarrow> length xs)"

text \<open>
  Modelled from the spec: the struct \<open>Item\<close> is declared outside \<open>collection.go\<close>;
  the fields are the three that \<open>SetItem\<close> reads (spec section 3).
\<close>

record Item =
  Key :: "bytes option"
  Val :: "bytes option"
  Priority :: int

text \<open>
  Modelled from the spec: \<open>ploc\<close>, the file location, an offset and a length, with the
  sentinel \<open>ploc_empty\<close> (spec section 6); a \<open>nil\<close> location and the sentinel are both empty.
\<close>

datatype ploc = Ploc (Offset: nat) (Length: nat)

definition ploc_empty :: ploc where
  "ploc_empty = Ploc 0 0"

definition ploc_isEmpty :: "ploc option \<Rightarrow> bool" where
  "ploc_isEmpty p =
     (case p of None \<Rightarrow> True | Some q \<Rightarrow> Offset q = Offset ploc_empty \<and> Length q = 0)"

datatype itemLoc = ItemLoc (iloc: "ploc option") (icached: bool) (icontent: "Item option")

datatype node = Node (item: itemLoc) (left: nodeLoc) (right: nodeLoc)
                     (numNodes: "64 word") (numBytes: "64 word")
  and nodeLoc = NodeLoc (loc: "ploc option") (cached: bool) (content: "node option")

text \<open>
  Modelled from the spec: the accessors of a cell (spec section 4.1). \<open>Node()\<close> is the
  in-memory pointer, \<open>isEmpty()\<close> holds iff there is neither an in-memory value nor a
  non-empty location.
\<close>

definition nodeLoc_Node :: "nodeLoc \<Rightarrow> node option" where
  "nodeLoc_Node n = (if cached n then content n else None)"

definition nodeLoc_isEmpty :: "nodeLoc \<Rightarrow> bool" where
  "nodeLoc_isEmpty n = (nodeLoc_Node n = None \<and> ploc_isEmpty (loc n))"

definition empty_nodeLoc :: nodeLoc where
  "empty_nodeLoc = NodeLoc None False None"

definition empty_itemLoc :: itemLoc where
  "empty_itemLoc = ItemLoc None False None"

type_synonym addr = nat

text \<open>
  The struct \<open>rootNodeLoc\<close>. The field \<open>next\<close> (free-list link) is used only by the
  pool code outside \<open>collection.go\<close> and is left out. \<open>refs\<close> is an \<open>int64\<close>.
  A \<open>*Collection\<close> is the address of the collection, a \<open>*rootNodeLoc\<close> an index into
  the heap; \<open>None\<close> is \<open>nil\<close>. Go has no pointer to a struct that does not exist: a
  function that meets an index outside the heap stops with \<open>InvalidPointer\<close>.
\<close>

record rootNodeLoc =
  refs :: "64 word"
  rnl_root :: nodeLoc
  chainedCollection :: "addr option"
  chainedRootNodeLoc :: "addr option"
  reclaimLater :: "node option \<times> node option"

text \<open>
  Calls into code outside \<open>collection.go\<close> whose effect is on the store and its pools
  are recorded, in order, as events; the first argument is the receiving collection.
\<close>

datatype event =
    ReclaimNodes addr "node option" "(node option \<times> node option) option"
  | FreeNodeLoc addr nodeLoc
  | FreeRootNodeLoc addr addr
  | MarkReclaimable addr "node option"
  | ItemWrite addr itemLoc
  | FlushNodes addr nodeLoc

text \<open>
  Errors. A \<open>store_error\<close> is an error handed back by code of the store (spec section 7:
  a failed read or write, a missing item). An \<open>error\<close> is what a function of
  \<open>collection.go\<close> returns: one constructor for each \<open>errors.New\<close> or \<open>fmt.Errorf\<close> of
  the file, \<open>StoreError\<close> for an error of the store passed on as it is, and \<open>JSONError\<close>
  for the one of \<open>json.Unmarshal\<close>.
\<close>

datatype store_error = IOError | CorruptionError

datatype error =
    KeyValMissingOrTooLong
  | PriorityNegative
  | ConcurrentMutation
  | ConcurrentDelete bytes
  | MissingItem
  | ConcurrentMutationUnmarshal
  | StoreError store_error
  | JSONError

text \<open>
  \<open>KeyCompare\<close>, line 15: negative, zero or positive. A \<open>nil\<close> slice is passed as the
  empty one.
\<close>

type_synonym KeyCompare = "bytes \<Rightarrow> bytes \<Rightarrow> int"

text \<open>
  The \<open>Store\<close> is outside \<open>collection.go\<close>; the functions of this file take what they
  use of it as a parameter: whether reading a location fails, the node the file holds
  at a location, the treap operations \<open>union\<close>, \<open>split\<close> and \<open>join\<close> (an error or
  their result), whether writing an item or flushing the nodes fails, and what
  \<open>json.Unmarshal\<close> makes of a byte string (\<open>None\<close> when it fails).
\<close>

record Store =
  readFails :: "ploc \<Rightarrow> bool"
  stored :: "ploc \<Rightarrow> node option"
  st_union :: "KeyCompare \<Rightarrow> nodeLoc \<Rightarrow> nodeLoc \<Rightarrow> store_error + nodeLoc"
  st_split :: "KeyCompare \<Rightarrow> nodeLoc \<Rightarrow> bytes \<Rightarrow> store_error + (nodeLoc \<times> nodeLoc \<times> nodeLoc)"
  st_join :: "KeyCompare \<Rightarrow> nodeLoc \<Rightarrow> nodeLoc \<Rightarrow> store_error + nodeLoc"
  itemWriteFails :: "itemLoc \<Rightarrow> bool"
  flushNodesFails :: "nodeLoc \<Rightarrow> bool"
  jsonUnmarshal :: "bytes \<Rightarrow> ploc option"

text \<open>
  The state: one \<open>Collection\<close> (its address \<open>self\<close>, the fields \<open>name\<close>, \<open>store\<close>,
  \<open>compare\<close> and \<open>root\<close> of the struct), the heap of all \<open>rootNodeLoc\<close> structs, and
  the events so far (latest last). The lock and the statistics are not modelled.
\<close>

record Collection =
  self :: addr
  name :: string
  store :: Store
  compare :: KeyCompare
  root :: "addr option"
  heap :: "rootNodeLoc list"
  trace :: "event list"

datatype panic = NilDereference | ChainAlreadyTaken string | InvalidPointer

type_synonym 'a outcome = "panic + ('a \<times> Collection)"

definition emit :: "event \<Rightarrow> Collection \<Rightarrow> Collection" where
  "emit e t = t\<lparr>trace := trace t @ [e]\<rparr>"

section \<open>Root compare-and-swap and reference counts\<close>

text \<open>
  \<open>rootCAS\<close>, lines 346-368. The lock is not modelled: the body runs atomically.
  \<open>t.root = next\<close> happens before the chain test; a panic is an outcome with no state.
  \<open>t.root.refs++\<close> dereferences \<open>next\<close>, which panics when \<open>next\<close> is \<open>nil\<close>.
\<close>

definition rootCAS :: "addr option \<Rightarrow> addr option \<Rightarrow> Collection \<Rightarrow> bool outcome" where
  "rootCAS prev next t =
    (if root t \<noteq> prev then Inr (False, t)
     else
       let t1 = t\<lparr>root := next\<rparr> in
       (case prev of
          None \<Rightarrow> Inr (True, t1)
        | Some p \<Rightarrow>
            if \<not> p < length (heap t1) then Inl InvalidPointer
            else if 2 < sint (refs (heap t1 ! p)) then
              (if chainedCollection (heap t1 ! p) \<noteq> None \<or>
                  chainedRootNodeLoc (heap t1 ! p) \<noteq> None
               then Inl (ChainAlreadyTaken (name t1))
               else
                 let h2 = (heap t1)[p := (heap t1 ! p)\<lparr>chainedCollection := Some (self t1),
                                                      chainedRootNodeLoc := root t1\<rparr>] in
                 (case root t1 of
                    None \<Rightarrow> Inl NilDereference
                  | Some n \<Rightarrow>
                      if \<not> n < length h2 then Inl InvalidPointer
                      else Inr (True, t1\<lparr>heap := h2[n := (h2 ! n)\<lparr>refs := refs (h2 ! n) + 1\<rparr>]\<rparr>)))
            else Inr (True, t1)))"

text \<open>\<open>rootAddRef\<close>, lines 370-375: \<open>t.root.refs++\<close> dereferences the root.\<close>

definition rootAddRef :: "Collection \<Rightarrow> addr outcome" where
  "rootAddRef t =
    (case root t of
       None \<Rightarrow> Inl NilDereference
     | Some r \<Rightarrow>
         if \<not> r < length (heap t) then Inl InvalidPointer
         else Inr (r, t\<lparr>heap := (heap t)[r := (heap t ! r)\<lparr>refs := refs (heap t ! r) + 1\<rparr>]\<rparr>))"


text \<open>
  \<open>rootDecRef_unlocked\<close>, lines 385-401. The receiver \<open>recv\<close> is the collection the
  method is called on: \<open>t\<close> itself, or the chained collection in the recursive call.
  \<open>reclaimNodes_unlocked\<close>, \<open>freeNodeLoc\<close> and \<open>freeRootNodeLoc\<close> are outside
  \<open>collection.go\<close>: each call is recorded with its arguments and is taken to leave the
  \<open>rootNodeLoc\<close> structs as they are. The fields of \<open>r\<close> are read after the recursive
  call returns, as in the source. The loop over the two slots is written out.
\<close>

function rootDecRef_unlocked :: "addr \<Rightarrow> addr \<Rightarrow> Collection \<Rightarrow> unit outcome" where
  "rootDecRef_unlocked recv r t =
    (if \<not> r < length (heap t) then Inl InvalidPointer
     else
       let t1 = t\<lparr>heap := (heap t)[r := (heap t ! r)\<lparr>refs := refs (heap t ! r) - 1\<rparr>]\<rparr> in
       if 0 < sint (refs (heap t1 ! r)) then Inr ((), t1)
       else
         (case (if chainedCollection (heap t1 ! r) \<noteq> None \<and>
                   chainedRootNodeLoc (heap t1 ! r) \<noteq> None
                then rootDecRef_unlocked (the (chainedCollection (heap t1 ! r)))
                       (the (chainedRootNodeLoc (heap t1 ! r))) t1
                else Inr ((), t1)) of
            Inl p \<Rightarrow> Inl p
          | Inr (u, t2) \<Rightarrow>
              let rl = reclaimLater (heap t2 ! r);
                  t3 = emit (ReclaimNodes recv (nodeLoc_Node (rnl_root (heap t2 ! r))) (Some rl)) t2;
                  t4 = (case fst rl of None \<Rightarrow> t3
                        | Some n \<Rightarrow> emit (ReclaimNodes recv (Some n) None) t3);
                  t5 = (case snd rl of None \<Rightarrow> t4
                        | Some n \<Rightarrow> emit (ReclaimNodes recv (Some n) None) t4);
                  t6 = emit (FreeNodeLoc recv (rnl_root (heap t2 ! r))) t5
              in Inr ((), emit (FreeRootNodeLoc recv r) t6)))"
  by pat_completeness auto

lemma sint_dec:
  assumes "sint (x - 1 :: 64 word) \<le> 0"
  shows "sint (x - 1) = sint x - 1"
proof (cases "sint x = - (2^63)")
  case True
  then have "word_of_int (sint x) = (word_of_int (- (2^63)) :: 64 word)" by simp
  then have "x = - (2^63)" by simp
  then have "sint (x - 1) = 2^63 - 1" by simp
  with assms show ?thesis by simp
next
  case False
  have "- (2^63) \<le> sint x" "sint x < 2^63"
    using sint_ge [of x] sint_lt [of x] by simp_all
  with False have "- (2^63) \<le> sint x - 1" "sint x - 1 < 2^63" by simp_all
  then show ?thesis
    by (simp add: sint_word_diff signed_take_bit_int_eq_self)
qed

lemma sum_list_update_less:
  "i < length xs \<Longrightarrow> f x < f (xs ! i) \<Longrightarrow>
     sum_list (map f (xs[i := x])) < (sum_list (map f xs) :: nat)"
proof (induction xs arbitrary: i)
  case Nil
  then show ?case by simp
next
  case (Cons a xs)
  then show ?case by (cases i) auto
qed

text \<open>
  The recursion follows the chain; it ends because every call that goes on has lowered one
  counter of the (finite) heap by one without wrapping around.
\<close>

termination rootDecRef_unlocked
proof (relation "measure (\<lambda>(recv, r, t). sum_list (map (\<lambda>x. nat (sint (refs x) + 2 ^ 63)) (heap t)))",
    goal_cases)
  case 1
  show ?case by simp
next
  case (2 recv r t t1)
  have lo: "- (2^63) \<le> sint (refs (heap t ! r) - 1)"
    using sint_ge [of "refs (heap t ! r) - 1"] by simp
  from 2 have "sint (refs (heap t ! r) - 1) = sint (refs (heap t ! r)) - 1"
    by (intro sint_dec) simp
  with lo have "nat (sint (refs (heap t ! r) - 1) + 2 ^ 63) < nat (sint (refs (heap t ! r)) + 2 ^ 63)"
    by linarith
  with 2 show ?case
    by (simp add: sum_list_update_less)
qed

text \<open>\<open>rootDecRef\<close>, lines 377-383: the same under both locks.\<close>

definition rootDecRef :: "addr \<Rightarrow> Collection \<Rightarrow> unit outcome" where
  "rootDecRef r t = rootDecRef_unlocked (self t) r t"

text \<open>\<open>closeCollection\<close>, lines 50-61 (the receiver is not \<open>nil\<close>).\<close>

definition closeCollection :: "Collection \<Rightarrow> unit outcome" where
  "closeCollection t =
    (let r = root t; t1 = t\<lparr>root := None\<rparr> in
     case r of None \<Rightarrow> Inr ((), t1) | Some a \<Rightarrow> rootDecRef a t1)"


section \<open>Cells and constructors\<close>

text \<open>
  Modelled from the spec: \<open>read\<close> on a cell (spec section 4.1) returns the in-memory value
  when there is one, nothing when the location is empty, and otherwise reads the store,
  which may fail. The model returns the whole item also when \<open>withValue\<close> is false.
\<close>

definition nodeLoc_read :: "Store \<Rightarrow> nodeLoc \<Rightarrow> store_error + node option" where
  "nodeLoc_read st n =
    (case nodeLoc_Node n of
       Some nd \<Rightarrow> Inr (Some nd)
     | None \<Rightarrow>
         if ploc_isEmpty (loc n) then Inr None
         else if readFails st (the (loc n)) then Inl IOError
         else Inr (content n))"

definition itemLoc_Item :: "itemLoc \<Rightarrow> Item option" where
  "itemLoc_Item i = (if icached i then icontent i else None)"

definition itemLoc_read :: "Store \<Rightarrow> itemLoc \<Rightarrow> bool \<Rightarrow> store_error + Item option" where
  "itemLoc_read st i withValue =
    (case itemLoc_Item i of
       Some it \<Rightarrow> Inr (Some it)
     | None \<Rightarrow>
         if ploc_isEmpty (iloc i) then Inr None
         else if readFails st (the (iloc i)) then Inl IOError
         else Inr (icontent i))"

text \<open>
  Modelled from the spec: the constructors of the pools (spec sections 4.2, 4.5 and 6).
  \<open>mkNode\<close> keeps the zero value of a field whose argument is \<open>nil\<close>; \<open>mkNodeLoc\<close>
  holds the node in memory with no location; \<open>mkRootNodeLoc\<close> starts with \<open>refs = 1\<close>
  and is a new cell of the heap (the reuse of freed cells is not modelled).
\<close>

definition mkNode ::
    "itemLoc option \<Rightarrow> nodeLoc option \<Rightarrow> nodeLoc option \<Rightarrow> 64 word \<Rightarrow> 64 word \<Rightarrow> node" where
  "mkNode i l r nn nb =
     Node (case i of None \<Rightarrow> empty_itemLoc | Some x \<Rightarrow> x)
          (case l of None \<Rightarrow> empty_nodeLoc | Some x \<Rightarrow> x)
          (case r of None \<Rightarrow> empty_nodeLoc | Some x \<Rightarrow> x) nn nb"

definition mkNodeLoc :: "node option \<Rightarrow> nodeLoc" where
  "mkNodeLoc n = NodeLoc None (n \<noteq> None) n"

definition mkRootNodeLoc :: "nodeLoc \<Rightarrow> Collection \<Rightarrow> addr \<times> Collection" where
  "mkRootNodeLoc r t =
     (length (heap t),
      t\<lparr>heap := heap t @ [\<lparr>refs = 1, rnl_root = r, chainedCollection = None,
                             chainedRootNodeLoc = None, reclaimLater = (None, None)\<rparr>]\<rparr>)"

text \<open>Modelled from the spec: \<open>NumValBytes\<close>, the size of the value (spec section 6).\<close>

definition NumValBytes :: "Item \<Rightarrow> 64 word" where
  "NumValBytes i = of_nat (len (Val i))"

section \<open>The functions of \<open>collection.go\<close>\<close>

lemma nodeLoc_read_size:
  "nodeLoc_read st n = Inr (Some nd) \<Longrightarrow> size (left nd) < size n \<and> size (right nd) < size n"
  by (cases n; cases nd) (auto simp: nodeLoc_read_def nodeLoc_Node_def split: option.splits if_splits)

lemma nodeLoc_Node_size:
  "nodeLoc_Node n = Some nd \<Longrightarrow> size (left nd) < size n \<and> size (right nd) < size n"
  by (cases n; cases nd) (auto simp: nodeLoc_Node_def split: if_splits)

text \<open>
  The loop of \<open>GetItem\<close>, lines 71-98, on the cell \<open>n\<close>; \<open>err != nil || n.isEmpty() ||
  nNode == nil\<close> returns \<open>(nil, err)\<close>.
\<close>

function GetItem_loop :: "Store \<Rightarrow> KeyCompare \<Rightarrow> bytes \<Rightarrow> bool \<Rightarrow> nodeLoc \<Rightarrow> error + Item option" where
  "GetItem_loop st cmp key withValue n =
    (case nodeLoc_read st n of
       Inl err \<Rightarrow> Inl (StoreError err)
     | Inr None \<Rightarrow> Inr None
     | Inr (Some nNode) \<Rightarrow>
         if nodeLoc_isEmpty n then Inr None
         else
           (case itemLoc_read st (item nNode) False of
              Inl err \<Rightarrow> Inl (StoreError err)
            | Inr None \<Rightarrow> Inl MissingItem
            | Inr (Some iItem) \<Rightarrow>
                (case Key iItem of
                   None \<Rightarrow> Inl MissingItem
                 | Some k \<Rightarrow>
                     let c = cmp key k in
                     if c < 0 then GetItem_loop st cmp key withValue (left nNode)
                     else if c > 0 then GetItem_loop st cmp key withValue (right nNode)
                     else if withValue then
                       (case itemLoc_read st (item nNode) withValue of
                          Inl err \<Rightarrow> Inl (StoreError err)
                        | Inr iItem' \<Rightarrow> Inr iItem')
                     else Inr (Some iItem))))"
  by pat_completeness auto
termination
  by (relation "measure (\<lambda>(st, cmp, key, withValue, n). size n)")
     (auto dest: nodeLoc_read_size)

text \<open>A deferred \<open>t.rootDecRef(rnl)\<close>: it runs when the function returns \<open>res\<close>.\<close>

definition deferred_rootDecRef :: "addr \<Rightarrow> 'a \<Rightarrow> Collection \<Rightarrow> 'a outcome" where
  "deferred_rootDecRef rnl res t =
    (case rootDecRef rnl t of Inl p \<Rightarrow> Inl p | Inr (u, t') \<Rightarrow> Inr (res, t'))"

text \<open>\<open>GetItem\<close>, lines 67-99.\<close>

definition GetItem :: "bytes \<Rightarrow> bool \<Rightarrow> Collection \<Rightarrow> (error + Item option) outcome" where
  "GetItem key withValue t =
    (case rootAddRef t of
       Inl p \<Rightarrow> Inl p
     | Inr (rnl, t1) \<Rightarrow>
         deferred_rootDecRef rnl
           (GetItem_loop (store t1) (compare t1) key withValue (rnl_root (heap t1 ! rnl))) t1)"

text \<open>\<open>Get\<close>, lines 103-112; a \<open>nil\<close> value is \<open>None\<close>.\<close>

definition Get :: "bytes \<Rightarrow> Collection \<Rightarrow> (error + bytes option) outcome" where
  "Get key t =
    (case GetItem key True t of
       Inl p \<Rightarrow> Inl p
     | Inr (Inl err, t') \<Rightarrow> Inr (Inl err, t')
     | Inr (Inr (Some i), t') \<Rightarrow> Inr (Inr (Val i), t')
     | Inr (Inr None, t') \<Rightarrow> Inr (Inr None, t'))"

text \<open>
  \<open>SetItem\<close>, lines 119-145 (primed names are the source's variables whose names are
  field names here). Between \<open>rootAddRef\<close> and \<open>rootCAS\<close> the lock is not held:
  \<open>env\<close> is what other goroutines do to the collection in between (the identity when
  the call runs alone). The second \<open>rootDecRef\<close> of the last branch is the deferred one.
\<close>

definition SetItem :: "(Collection \<Rightarrow> Collection) \<Rightarrow> Item \<Rightarrow> Collection \<Rightarrow> error option outcome" where
  "SetItem env item' t =
    (if Key item' = None \<or> len (Key item') > 0xffff \<or> len (Key item') = 0 \<or> Val item' = None
     then Inr (Some KeyValMissingOrTooLong, t)
     else if Priority item' < 0 then Inr (Some PriorityNegative, t)
     else
       (case rootAddRef t of
          Inl p \<Rightarrow> Inl p
        | Inr (rnl, t1) \<Rightarrow>
            let root' = rnl_root (heap t1 ! rnl);
                t2 = env t1;
                n0 = mkNode None None None 1 (of_nat (len (Key item')) + NumValBytes item');
                n = Node (ItemLoc (iloc (item n0)) True (Some item')) (left n0) (right n0)
                         (numNodes n0) (numBytes n0);
                nloc = mkNodeLoc (Some n)
            in
            (case st_union (store t2) (compare t2) root' nloc of
               Inl err \<Rightarrow> deferred_rootDecRef rnl (Some (StoreError err)) t2
             | Inr r \<Rightarrow>
                 let (rnlNew, t3) = mkRootNodeLoc r t2;
                     t4 = t3\<lparr>heap := (heap t3)[rnlNew := (heap t3 ! rnlNew)
                             \<lparr>reclaimLater := (Some n, snd (reclaimLater (heap t3 ! rnlNew)))\<rparr>]\<rparr>
                 in
                 (case rootCAS (Some rnl) (Some rnlNew) t4 of
                    Inl p \<Rightarrow> Inl p
                  | Inr (False, t5) \<Rightarrow> deferred_rootDecRef rnl (Some ConcurrentMutation) t5
                  | Inr (True, t5) \<Rightarrow>
                      (case rootDecRef rnl t5 of
                         Inl p \<Rightarrow> Inl p
                       | Inr (u, t6) \<Rightarrow>
                           deferred_rootDecRef rnl None (emit (FreeNodeLoc (self t6) nloc) t6))))))"

text \<open>\<open>Set\<close>, lines 148-150; \<open>prio\<close> is the value of \<open>rand.Int31()\<close>.\<close>

definition Set :: "(Collection \<Rightarrow> Collection) \<Rightarrow> int \<Rightarrow> bytes option \<Rightarrow> bytes option \<Rightarrow> Collection
    \<Rightarrow> error option outcome" where
  "Set env prio key val t = SetItem env \<lparr>Key = key, Val = val, Priority = prio\<rparr> t"

text \<open>\<open>Delete\<close>, lines 153-190, with \<open>env\<close> as in \<open>SetItem\<close>.\<close>

definition Delete :: "(Collection \<Rightarrow> Collection) \<Rightarrow> bytes \<Rightarrow> Collection \<Rightarrow> (bool \<times> error option) outcome" where
  "Delete env key t =
    (case rootAddRef t of
       Inl p \<Rightarrow> Inl p
     | Inr (rnl, t1) \<Rightarrow>
         let root' = rnl_root (heap t1 ! rnl);
             t2 = env t1
         in
         (case GetItem key False t2 of
            Inl p \<Rightarrow> Inl p
          | Inr (Inl err, t3) \<Rightarrow> deferred_rootDecRef rnl (False, Some err) t3
          | Inr (Inr None, t3) \<Rightarrow> deferred_rootDecRef rnl (False, None) t3
          | Inr (Inr (Some i), t3) \<Rightarrow>
              (case st_split (store t3) (compare t3) root' key of
                 Inl err \<Rightarrow> deferred_rootDecRef rnl (False, Some (StoreError err)) t3
               | Inr (left', middle, right') \<Rightarrow>
                   if nodeLoc_isEmpty middle
                   then deferred_rootDecRef rnl (False, Some (ConcurrentDelete key)) t3
                   else
                     let t4 = emit (MarkReclaimable (self t3) (nodeLoc_Node middle)) t3;
                         t5 = emit (FreeNodeLoc (self t4) middle) t4
                     in
                     (case st_join (store t5) (compare t5) left' right' of
                        Inl err \<Rightarrow> deferred_rootDecRef rnl (False, Some (StoreError err)) t5
                      | Inr r \<Rightarrow>
                          let (rnlNew, t6) = mkRootNodeLoc r t5;
                              slot0 = (if \<not> nodeLoc_isEmpty left' then nodeLoc_Node left'
                                       else fst (reclaimLater (heap t6 ! rnlNew)));
                              slot1 = (if \<not> nodeLoc_isEmpty right' then nodeLoc_Node right'
                                       else snd (reclaimLater (heap t6 ! rnlNew)));
                              t7 = t6\<lparr>heap := (heap t6)[rnlNew := (heap t6 ! rnlNew)
                                      \<lparr>reclaimLater := (slot0, slot1)\<rparr>]\<rparr>
                          in
                          (case rootCAS (Some rnl) (Some rnlNew) t7 of
                             Inl p \<Rightarrow> Inl p
                           | Inr (False, t8) \<Rightarrow>
                               deferred_rootDecRef rnl (False, Some ConcurrentMutation) t8
                           | Inr (True, t8) \<Rightarrow>
                               (case rootDecRef rnl t8 of
                                  Inl p \<Rightarrow> Inl p
                                | Inr (u, t9) \<Rightarrow>
                                    deferred_rootDecRef rnl (True, None)
                                      (emit (FreeNodeLoc (self t9) right')
                                         (emit (FreeNodeLoc (self t9) left') t9))))))))"

text \<open>\<open>GetTotals\<close>, lines 269-278.\<close>

definition GetTotals :: "Collection \<Rightarrow> (64 word \<times> 64 word \<times> error option) outcome" where
  "GetTotals t =
    (case rootAddRef t of
       Inl p \<Rightarrow> Inl p
     | Inr (rnl, t1) \<Rightarrow>
         let n = rnl_root (heap t1 ! rnl) in
         deferred_rootDecRef rnl
           (case nodeLoc_read (store t1) n of
              Inl err \<Rightarrow> (0, 0, Some (StoreError err))
            | Inr None \<Rightarrow> (0, 0, None)
            | Inr (Some nNode) \<Rightarrow>
                if nodeLoc_isEmpty n then (0, 0, None)
                else (numNodes nNode, numBytes nNode, None)) t1)"

text \<open>
  \<open>UnmarshalJSON\<close>, lines 292-306. The new cell has the decoded location, no node in
  memory, and denotes what the store holds there.
\<close>

definition UnmarshalJSON :: "bytes \<Rightarrow> Collection \<Rightarrow> error option outcome" where
  "UnmarshalJSON d t =
    (case jsonUnmarshal (store t) d of
       None \<Rightarrow> Inr (Some JSONError, t)
     | Some p \<Rightarrow>
         let nloc = mkNodeLoc None;
             nloc = NodeLoc (Some p) (cached nloc) (stored (store t) p);
             (rnlNew, t1) = mkRootNodeLoc nloc t
         in
         (case rootCAS None (Some rnlNew) t1 of
            Inl p \<Rightarrow> Inl p
          | Inr (False, t2) \<Rightarrow> Inr (Some ConcurrentMutationUnmarshal, t2)
          | Inr (True, t2) \<Rightarrow> Inr (None, t2)))"

text \<open>
  \<open>flushItems\<close>, lines 329-344. The argument is the address of a field or the root of a
  \<open>rootNodeLoc\<close>, never \<open>nil\<close>. \<open>item.write\<close> is outside \<open>collection.go\<close>: a write that
  succeeds is recorded.
\<close>

function flushItems :: "nodeLoc \<Rightarrow> Collection \<Rightarrow> error option \<times> Collection" where
  "flushItems nloc t =
    (if \<not> ploc_isEmpty (loc nloc) then (None, t)
     else
       (case nodeLoc_Node nloc of
          None \<Rightarrow> (None, t)
        | Some nd \<Rightarrow>
            (case flushItems (left nd) t of
               (Some err, t1) \<Rightarrow> (Some err, t1)
             | (None, t1) \<Rightarrow>
                 if itemWriteFails (store t1) (item nd) then (Some (StoreError IOError), t1)
                 else flushItems (right nd) (emit (ItemWrite (self t1) (item nd)) t1))))"
  by pat_completeness auto
termination
  by (relation "measure (\<lambda>(n, t). size n)") (auto dest: nodeLoc_Node_size)

text \<open>\<open>Write\<close>, lines 311-322; \<open>store.flushNodes\<close> is recorded when it succeeds.\<close>

definition Write :: "Collection \<Rightarrow> error option outcome" where
  "Write t =
    (case rootAddRef t of
       Inl p \<Rightarrow> Inl p
     | Inr (rnl, t1) \<Rightarrow>
         let root' = rnl_root (heap t1 ! rnl) in
         (case flushItems root' t1 of
            (Some err, t2) \<Rightarrow> deferred_rootDecRef rnl (Some err) t2
          | (None, t2) \<Rightarrow>
              if flushNodesFails (store t2) root' then
                deferred_rootDecRef rnl (Some (StoreError IOError)) t2
              else deferred_rootDecRef rnl None (emit (FlushNodes (self t2) root') t2)))"


section \<open>The treap operations of the store\<close>

text \<open>
  Modelled from the spec: \<open>union\<close>, \<open>split\<close> and \<open>join\<close> of the \<open>Store\<close> are outside
  \<open>collection.go\<close>; the definitions follow spec section 4.3. Nodes are read through the
  store, an empty cell is the empty tree, and every changed node is rebuilt with its
  counts recomputed from its children and its item (spec section 8).
\<close>

definition readNode :: "Store \<Rightarrow> nodeLoc \<Rightarrow> store_error + node option" where
  "readNode st n =
    (case nodeLoc_read st n of
       Inl err \<Rightarrow> Inl err
     | Inr x \<Rightarrow> Inr (if nodeLoc_isEmpty n then None else x))"

definition readKey :: "Store \<Rightarrow> node \<Rightarrow> store_error + (Item \<times> bytes)" where
  "readKey st nd =
    (case itemLoc_read st (item nd) False of
       Inl err \<Rightarrow> Inl err
     | Inr None \<Rightarrow> Inl CorruptionError
     | Inr (Some it) \<Rightarrow> (case Key it of None \<Rightarrow> Inl CorruptionError | Some k \<Rightarrow> Inr (it, k)))"

definition numInfo :: "Store \<Rightarrow> nodeLoc \<Rightarrow> store_error + (64 word \<times> 64 word)" where
  "numInfo st n =
    (case readNode st n of
       Inl err \<Rightarrow> Inl err
     | Inr None \<Rightarrow> Inr (0, 0)
     | Inr (Some nd) \<Rightarrow> Inr (numNodes nd, numBytes nd))"

definition rebuild :: "Store \<Rightarrow> itemLoc \<Rightarrow> nodeLoc \<Rightarrow> nodeLoc \<Rightarrow> store_error + nodeLoc" where
  "rebuild st i l r =
    (case itemLoc_read st i False of
       Inl err \<Rightarrow> Inl err
     | Inr None \<Rightarrow> Inl CorruptionError
     | Inr (Some it) \<Rightarrow>
        (case numInfo st l of
           Inl err \<Rightarrow> Inl err
         | Inr (ln, lb) \<Rightarrow>
            (case numInfo st r of
               Inl err \<Rightarrow> Inl err
             | Inr (rn, rb) \<Rightarrow>
                 Inr (mkNodeLoc (Some (mkNode (Some i) (Some l) (Some r)
                        (ln + rn + 1) (lb + rb + (of_nat (len (Key it)) + NumValBytes it))))))))"

fun nnodes :: "nodeLoc \<Rightarrow> nat" and nnodes_node :: "node \<Rightarrow> nat" where
  "nnodes (NodeLoc l c n) = (case n of None \<Rightarrow> 0 | Some nd \<Rightarrow> nnodes_node nd)"
| "nnodes_node (Node i l r nn nb) = 1 + nnodes l + nnodes r"

lemma nodeLoc_read_content:
  "nodeLoc_read st n = Inr (Some nd) \<Longrightarrow> content n = Some nd"
  by (auto simp: nodeLoc_read_def nodeLoc_Node_def split: option.splits if_splits)

lemma readNode_content: "readNode st n = Inr (Some nd) \<Longrightarrow> content n = Some nd"
  by (auto simp: readNode_def dest: nodeLoc_read_content split: sum.splits if_splits)

lemma readNode_size:
  "readNode st n = Inr (Some nd) \<Longrightarrow> size (left nd) < size n \<and> size (right nd) < size n"
  by (auto simp: readNode_def dest: nodeLoc_read_size split: sum.splits if_splits)

lemma nnodes_content: "content n = Some nd \<Longrightarrow> nnodes n = 1 + nnodes (left nd) + nnodes (right nd)"
  by (cases n; cases nd) simp

lemma nnodes_empty [simp]: "nnodes empty_nodeLoc = 0"
  by (simp add: empty_nodeLoc_def)

lemma nnodes_rebuild:
  "rebuild st i l r = Inr x \<Longrightarrow> nnodes x = 1 + nnodes l + nnodes r"
  by (auto simp: rebuild_def mkNodeLoc_def mkNode_def split: sum.splits option.splits prod.splits)

text \<open>
  \<open>split(T, k)\<close>: the keys below \<open>k\<close>, the node with key \<open>k\<close> (or the empty cell), the keys
  above \<open>k\<close>.
\<close>

function Store_split ::
    "Store \<Rightarrow> KeyCompare \<Rightarrow> nodeLoc \<Rightarrow> bytes \<Rightarrow> store_error + (nodeLoc \<times> nodeLoc \<times> nodeLoc)" where
  "Store_split st cmp n s =
    (case readNode st n of
       Inl err \<Rightarrow> Inl err
     | Inr None \<Rightarrow> Inr (empty_nodeLoc, empty_nodeLoc, empty_nodeLoc)
     | Inr (Some nd) \<Rightarrow>
         (case readKey st nd of
            Inl err \<Rightarrow> Inl err
          | Inr (it, k) \<Rightarrow>
              let c = cmp s k in
              if c = 0 then Inr (left nd, n, right nd)
              else if c < 0 then
                (case Store_split st cmp (left nd) s of
                   Inl err \<Rightarrow> Inl err
                 | Inr (lo, mid, hi) \<Rightarrow>
                     (case rebuild st (item nd) hi (right nd) of
                        Inl err \<Rightarrow> Inl err
                      | Inr hi' \<Rightarrow> Inr (lo, mid, hi')))
              else
                (case Store_split st cmp (right nd) s of
                   Inl err \<Rightarrow> Inl err
                 | Inr (lo, mid, hi) \<Rightarrow>
                     (case rebuild st (item nd) (left nd) lo of
                        Inl err \<Rightarrow> Inl err
                      | Inr lo' \<Rightarrow> Inr (lo', mid, hi)))))"
  by pat_completeness auto
termination
  by (relation "measure (\<lambda>(st, cmp, n, s). size n)") (auto dest: readNode_size)

declare Store_split.simps [simp del]

lemma Store_split_nnodes:
  "Store_split st cmp n s = Inr (lo, mid, hi) \<Longrightarrow> nnodes lo + nnodes hi \<le> nnodes n"
proof (induction st cmp n s arbitrary: lo mid hi rule: Store_split.induct)
  case (1 st cmp n s)
  show ?case
  proof (cases "readNode st n")
    case (Inl e)
    with "1.prems" show ?thesis by (subst (asm) Store_split.simps) simp
  next
    case (Inr x)
    show ?thesis
    proof (cases x)
      case None
      with Inr "1.prems" show ?thesis by (subst (asm) Store_split.simps) auto
    next
      case (Some nd)
      note rd = Inr [unfolded Some]
      note nn = nnodes_content [OF readNode_content [OF rd]]
      from rd "1.prems" obtain it k where rk: "readKey st nd = Inr (it, k)"
        by (subst (asm) Store_split.simps) (auto split: sum.splits)
      consider (eq) "cmp s k = 0" | (lt) "cmp s k \<noteq> 0" "cmp s k < 0"
        | (gt) "cmp s k \<noteq> 0" "\<not> cmp s k < 0" by blast
      then show ?thesis
      proof cases
        case eq
        with rd rk "1.prems" nn show ?thesis
          by (subst (asm) Store_split.simps) auto
      next
        case lt
        with rd rk "1.prems" obtain lo1 mid1 hi1 where
          sp: "Store_split st cmp (left nd) s = Inr (lo1, mid1, hi1)" and
          rb: "rebuild st (item nd) hi1 (right nd) = Inr hi" and lo: "lo = lo1"
          by (subst (asm) Store_split.simps) (auto split: sum.splits)
        from "1.IH"(1) [OF Inr Some rk refl refl lt sp]
        have "nnodes lo1 + nnodes hi1 \<le> nnodes (left nd)" by simp
        with nnodes_rebuild [OF rb] lo nn show ?thesis by simp
      next
        case gt
        with rd rk "1.prems" obtain lo1 mid1 hi1 where
          sp: "Store_split st cmp (right nd) s = Inr (lo1, mid1, hi1)" and
          rb: "rebuild st (item nd) (left nd) lo1 = Inr lo" and hi: "hi = hi1"
          by (subst (asm) Store_split.simps) (auto split: sum.splits)
        from "1.IH"(2) [OF Inr Some rk refl refl gt sp]
        have "nnodes lo1 + nnodes hi1 \<le> nnodes (right nd)" by simp
        with nnodes_rebuild [OF rb] hi nn show ?thesis by simp
      qed
    qed
  qed
qed

text \<open>
  \<open>union(A, B)\<close> with \<open>A = this\<close> the current tree and \<open>B = that\<close> the insert side: the
  root with the higher priority stays on top (\<open>this\<close> on a tie), the other tree is split on
  its key, and a node of the insert side with the same key supersedes the item.
\<close>

function Store_union :: "Store \<Rightarrow> KeyCompare \<Rightarrow> nodeLoc \<Rightarrow> nodeLoc \<Rightarrow> store_error + nodeLoc" where
  "Store_union st cmp this that =
    (case readNode st this of
       Inl err \<Rightarrow> Inl err
     | Inr None \<Rightarrow> Inr that
     | Inr (Some thisNode) \<Rightarrow>
    (case readNode st that of
       Inl err \<Rightarrow> Inl err
     | Inr None \<Rightarrow> Inr this
     | Inr (Some thatNode) \<Rightarrow>
    (case readKey st thisNode of
       Inl err \<Rightarrow> Inl err
     | Inr (thisItem, thisKey) \<Rightarrow>
    (case readKey st thatNode of
       Inl err \<Rightarrow> Inl err
     | Inr (thatItem, thatKey) \<Rightarrow>
         if Priority thatItem \<le> Priority thisItem then
           (case Store_split st cmp that thisKey of
              Inl err \<Rightarrow> Inl err
            | Inr (lo, mid, hi) \<Rightarrow>
           (case Store_union st cmp (left thisNode) lo of
              Inl err \<Rightarrow> Inl err
            | Inr newLeft \<Rightarrow>
           (case Store_union st cmp (right thisNode) hi of
              Inl err \<Rightarrow> Inl err
            | Inr newRight \<Rightarrow>
           (case readNode st mid of
              Inl err \<Rightarrow> Inl err
            | Inr None \<Rightarrow> rebuild st (item thisNode) newLeft newRight
            | Inr (Some midNode) \<Rightarrow> rebuild st (item midNode) newLeft newRight))))
         else
           (case Store_split st cmp this thatKey of
              Inl err \<Rightarrow> Inl err
            | Inr (lo, mid, hi) \<Rightarrow>
           (case Store_union st cmp lo (left thatNode) of
              Inl err \<Rightarrow> Inl err
            | Inr newLeft \<Rightarrow>
           (case Store_union st cmp hi (right thatNode) of
              Inl err \<Rightarrow> Inl err
            | Inr newRight \<Rightarrow> rebuild st (item thatNode) newLeft newRight)))))))"
  by pat_completeness auto
termination
  by (relation "measure (\<lambda>(st, cmp, this, that). nnodes this + nnodes that)")
     (auto dest!: readNode_content Store_split_nnodes simp: nnodes_content)

declare Store_union.simps [simp del]

text \<open>
  \<open>join(L, R)\<close>, every key of \<open>L\<close> below every key of \<open>R\<close>: the root with the higher
  priority stays on top (\<open>L\<close> on a tie) and the trees next to it are joined.
\<close>

function Store_join :: "Store \<Rightarrow> KeyCompare \<Rightarrow> nodeLoc \<Rightarrow> nodeLoc \<Rightarrow> store_error + nodeLoc" where
  "Store_join st cmp this that =
    (case readNode st this of
       Inl err \<Rightarrow> Inl err
     | Inr None \<Rightarrow> Inr that
     | Inr (Some thisNode) \<Rightarrow>
    (case readNode st that of
       Inl err \<Rightarrow> Inl err
     | Inr None \<Rightarrow> Inr this
     | Inr (Some thatNode) \<Rightarrow>
    (case readKey st thisNode of
       Inl err \<Rightarrow> Inl err
     | Inr (thisItem, thisKey) \<Rightarrow>
    (case readKey st thatNode of
       Inl err \<Rightarrow> Inl err
     | Inr (thatItem, thatKey) \<Rightarrow>
         if Priority thatItem \<le> Priority thisItem then
           (case Store_join st cmp (right thisNode) that of
              Inl err \<Rightarrow> Inl err
            | Inr newRight \<Rightarrow> rebuild st (item thisNode) (left thisNode) newRight)
         else
           (case Store_join st cmp this (left thatNode) of
              Inl err \<Rightarrow> Inl err
            | Inr newLeft \<Rightarrow> rebuild st (item thatNode) newLeft (right thatNode))))))"
  by pat_completeness auto
termination
  by (relation "measure (\<lambda>(st, cmp, this, that). nnodes this + nnodes that)")
     (auto dest!: readNode_content simp: nnodes_content)

declare Store_join.simps [simp del]

text \<open>
  A store whose treap operations are the ones above, given how reads, writes and
  \<open>json.Unmarshal\<close> behave.
\<close>

definition treapStore ::
    "(ploc \<Rightarrow> bool) \<Rightarrow> (ploc \<Rightarrow> node option) \<Rightarrow> (itemLoc \<Rightarrow> bool) \<Rightarrow> (nodeLoc \<Rightarrow> bool) \<Rightarrow>
     (bytes \<Rightarrow> ploc option) \<Rightarrow> Store" where
  "treapStore rdF sto wrF flF jsn =
     (let st0 = \<lparr>readFails = rdF, stored = sto,
                 st_union = (\<lambda>cmp a b. Inl IOError), st_split = (\<lambda>cmp a k. Inl IOError),
                 st_join = (\<lambda>cmp a b. Inl IOError),
                 itemWriteFails = wrF, flushNodesFails = flF, jsonUnmarshal = jsn\<rparr>
      in st0\<lparr>st_union := Store_union st0, st_split := Store_split st0, st_join := Store_join st0\<rparr>)"


section \<open>Notions of the specification\<close>

text \<open>
  The decrement of one counter, the events of one reclamation in the order the
  specification gives them (the retired tree with the slots to skip, each slot that is
  set, the root cell, the \<open>rootNodeLoc\<close>), and equality of two \<open>rootNodeLoc\<close> values up
  to the counter.
\<close>

definition decr :: "addr \<Rightarrow> Collection \<Rightarrow> Collection" where
  "decr r t = t\<lparr>heap := (heap t)[r := (heap t ! r)\<lparr>refs := refs (heap t ! r) - 1\<rparr>]\<rparr>"

definition reclamation :: "addr \<Rightarrow> addr \<Rightarrow> rootNodeLoc \<Rightarrow> event list" where
  "reclamation recv r x =
     [ReclaimNodes recv (nodeLoc_Node (rnl_root x)) (Some (reclaimLater x))] @
     (case fst (reclaimLater x) of None \<Rightarrow> [] | Some n \<Rightarrow> [ReclaimNodes recv (Some n) None]) @
     (case snd (reclaimLater x) of None \<Rightarrow> [] | Some n \<Rightarrow> [ReclaimNodes recv (Some n) None]) @
     [FreeNodeLoc recv (rnl_root x), FreeRootNodeLoc recv r]"

definition same_but_refs :: "rootNodeLoc \<Rightarrow> rootNodeLoc \<Rightarrow> bool" where
  "same_but_refs a b \<longleftrightarrow> rnl_root a = rnl_root b \<and> chainedCollection a = chainedCollection b \<and>
     chainedRootNodeLoc a = chainedRootNodeLoc b \<and> reclaimLater a = reclaimLater b"


text \<open>
  The tree a cell denotes (nothing for an empty cell, else its node, in memory or on file),
  its items in key order as a full visit meets them, and the items \<open>Write\<close> is specified
  to write: those of the nodes with no location yet, in key order, a subtree that has a
  location being skipped.
\<close>

definition subtree :: "nodeLoc \<Rightarrow> node option" where
  "subtree n = (if nodeLoc_isEmpty n then None else content n)"

lemma subtree_size:
  "subtree n = Some nd \<Longrightarrow> size (left nd) < size n \<and> size (right nd) < size n"
  by (cases n; cases nd) (auto simp: subtree_def split: if_splits)

function inorder :: "nodeLoc \<Rightarrow> itemLoc list" where
  "inorder n =
    (case subtree n of
       None \<Rightarrow> []
     | Some nd \<Rightarrow> inorder (left nd) @ [item nd] @ inorder (right nd))"
  by pat_completeness auto
termination
  by (relation "measure size") (auto dest: subtree_size)

function dirtyItems :: "nodeLoc \<Rightarrow> itemLoc list" where
  "dirtyItems n =
    (if \<not> ploc_isEmpty (loc n) then []
     else
       (case nodeLoc_Node n of
          None \<Rightarrow> []
        | Some nd \<Rightarrow> dirtyItems (left nd) @ [item nd] @ dirtyItems (right nd)))"
  by pat_completeness auto
termination
  by (relation "measure size") (auto dest: nodeLoc_Node_size)

text \<open>
  The invariant of the counts (spec sections 3 and 8): in every node, \<open>numNodes\<close> is one
  more than the counts of the children and \<open>numBytes\<close> is the bytes of the item plus
  those of the children (as \<open>uint64\<close>).
\<close>

definition itemBytes :: "itemLoc \<Rightarrow> nat" where
  "itemBytes i = (case icontent i of None \<Rightarrow> 0 | Some it \<Rightarrow> len (Key it) + len (Val it))"

definition subNodes :: "nodeLoc \<Rightarrow> 64 word" where
  "subNodes n = (case subtree n of None \<Rightarrow> 0 | Some nd \<Rightarrow> numNodes nd)"

definition subBytes :: "nodeLoc \<Rightarrow> 64 word" where
  "subBytes n = (case subtree n of None \<Rightarrow> 0 | Some nd \<Rightarrow> numBytes nd)"

function counts_ok :: "nodeLoc \<Rightarrow> bool" where
  "counts_ok n =
    (case subtree n of
       None \<Rightarrow> True
     | Some nd \<Rightarrow>
         numNodes nd = 1 + subNodes (left nd) + subNodes (right nd) \<and>
         numBytes nd = of_nat (itemBytes (item nd)) + subBytes (left nd) + subBytes (right nd) \<and>
         counts_ok (left nd) \<and> counts_ok (right nd))"
  by pat_completeness auto
termination
  by (relation "measure size") (auto dest: subtree_size)

text \<open>The counts are right in the tree of every \<open>rootNodeLoc\<close> of the heap.\<close>

definition heap_counts_ok :: "Collection \<Rightarrow> bool" where
  "heap_counts_ok t \<longleftrightarrow> list_all (\<lambda>x. counts_ok (rnl_root x)) (heap t)"

text \<open>
  What \<open>Get\<close> after \<open>Set\<close> relies on: a \<open>KeyCompare\<close> that is zero on equal keys and
  antisymmetric; chain pointers that point into the heap. \<open>newNode\<close> is the node
  \<open>SetItem\<close> builds for an item, \<open>nodes_of\<close> the nodes reachable in memory from a cell.
\<close>

definition KeyCompare_ok :: "KeyCompare \<Rightarrow> bool" where
  "KeyCompare_ok cmp \<longleftrightarrow> (\<forall>a. cmp a a = 0) \<and> (\<forall>a b. cmp a b < 0 \<longleftrightarrow> 0 < cmp b a)"

definition wf_heap :: "Collection \<Rightarrow> bool" where
  "wf_heap t \<longleftrightarrow>
     list_all (\<lambda>x. case chainedRootNodeLoc x of None \<Rightarrow> True | Some n \<Rightarrow> n < length (heap t)) (heap t)"

definition newNode :: "Item \<Rightarrow> node" where
  "newNode i = Node (ItemLoc None True (Some i)) empty_nodeLoc empty_nodeLoc 1
                 (of_nat (len (Key i)) + NumValBytes i)"

function nodes_of :: "nodeLoc \<Rightarrow> node list" where
  "nodes_of n =
    (case nodeLoc_Node n of
       None \<Rightarrow> []
     | Some nd \<Rightarrow> nd # nodes_of (left nd) @ nodes_of (right nd))"
  by pat_completeness auto
termination
  by (relation "measure size") (auto dest: nodeLoc_Node_size)

text \<open>The items \<open>SetItem\<close> is specified to refuse (spec section 4.4).\<close>

definition invalidItem :: "Item \<Rightarrow> bool" where
  "invalidItem i \<longleftrightarrow> Key i = None \<or> len (Key i) = 0 \<or> 65535 < len (Key i) \<or> Val i = None \<or> Priority i < 0"

text \<open>A cell that the store reads as a single node with item cell \<open>il\<close>.\<close>

definition single :: "Store \<Rightarrow> itemLoc \<Rightarrow> nodeLoc \<Rightarrow> bool" where
  "single st il b \<longleftrightarrow>
     (\<exists>bn. readNode st b = Inr (Some bn) \<and> item bn = il \<and>
           readNode st (left bn) = Inr None \<and> readNode st (right bn) = Inr None)"

section \<open>Example states\<close>

text \<open>
  \<open>bytes.Compare\<close>, the comparison the source names as an example of a \<open>KeyCompare\<close>; a
  store that never fails; a \<open>rootNodeLoc\<close> with no chain and no slots; a collection
  whose root is the first cell of a given heap; a chain of three cells; an item; the
  cell \<open>SetItem\<close> builds for an item; a tree of two nodes; a cell on file that is not in
  memory; a store whose reads and item writes fail; another goroutine that swaps the root;
  a tree whose left subtree has a location; the collections after a first \<open>SetItem\<close> and
  after a \<open>Delete\<close>.
\<close>

fun bytesCompare :: KeyCompare where
  "bytesCompare [] [] = 0"
| "bytesCompare [] (y # ys) = - 1"
| "bytesCompare (x # xs) [] = 1"
| "bytesCompare (x # xs) (y # ys) =
     (if x < y then - 1 else if y < x then 1 else bytesCompare xs ys)"

definition exStore :: Store where
  "exStore = treapStore (\<lambda>p. False) (\<lambda>p. None) (\<lambda>i. False) (\<lambda>n. False) (\<lambda>d. Some (Ploc 8 16))"

definition exRoot :: "64 word \<Rightarrow> nodeLoc \<Rightarrow> rootNodeLoc" where
  "exRoot k n = \<lparr>refs = k, rnl_root = n, chainedCollection = None,
                 chainedRootNodeLoc = None, reclaimLater = (None, None)\<rparr>"

definition exCollection :: "rootNodeLoc list \<Rightarrow> Collection" where
  "exCollection h = \<lparr>self = 1, name = ''c'', store = exStore, compare = bytesCompare,
                      root = Some 0, heap = h, trace = []\<rparr>"

definition exChain :: "rootNodeLoc list" where
  "exChain =
     [(exRoot 1 empty_nodeLoc)\<lparr>chainedCollection := Some 1, chainedRootNodeLoc := Some 1\<rparr>,
      (exRoot 1 empty_nodeLoc)\<lparr>chainedCollection := Some 1, chainedRootNodeLoc := Some 2\<rparr>,
      exRoot 2 empty_nodeLoc]"


definition exItem :: "bytes \<Rightarrow> bytes \<Rightarrow> int \<Rightarrow> Item" where
  "exItem k v p = \<lparr>Key = Some k, Val = Some v, Priority = p\<rparr>"

definition exLeaf :: "Item \<Rightarrow> nodeLoc" where
  "exLeaf i = mkNodeLoc (Some (newNode i))"

definition exTree :: nodeLoc where
  "exTree = mkNodeLoc (Some (Node (ItemLoc None True (Some (exItem [98] [50] 5)))
                 (exLeaf (exItem [97] [49] 1)) empty_nodeLoc 2 4))"

definition exPersisted :: nodeLoc where
  "exPersisted = NodeLoc (Some (Ploc 8 16)) False None"

definition exFailingStore :: Store where
  "exFailingStore = treapStore (\<lambda>p. True) (\<lambda>p. None) (\<lambda>i. True) (\<lambda>n. False) (\<lambda>d. None)"

definition exOther :: "addr \<Rightarrow> Collection \<Rightarrow> Collection" where
  "exOther a t = t\<lparr>root := Some a\<rparr>"

definition exHalfPersisted :: nodeLoc where
  "exHalfPersisted = mkNodeLoc (Some (Node (ItemLoc None True (Some (exItem [98] [50] 5)))
       (NodeLoc (Some (Ploc 8 16)) True (Some (newNode (exItem [97] [49] 1)))) empty_nodeLoc 2 4))"

definition exAfterSet :: Collection where
  "exAfterSet = snd (projr (SetItem id (exItem [97] [49] 7) (exCollection [exRoot 1 empty_nodeLoc])))"

definition exAfterDelete :: Collection where
  "exAfterDelete = snd (projr (Delete id [98] (exCollection [exRoot 1 exTree])))"

section \<open>Lemmas\<close>

declare rootDecRef_unlocked.simps [simp del]

declare GetItem_loop.simps [simp del]

declare flushItems.simps [simp del]

declare inorder.simps [simp del]

declare dirtyItems.simps [simp del]

declare counts_ok.simps [simp del]

declare nodes_of.simps [simp del]

lemma emit_simps [simp]:
  "heap (emit e t) = heap t" "root (emit e t) = root t" "self (emit e t) = self t"
  "name (emit e t) = name t" "trace (emit e t) = trace t @ [e]"
  "store (emit e t) = store t" "compare (emit e t) = compare t"
  by (simp_all add: emit_def)

lemma decr_simps [simp]:
  "root (decr r t) = root t" "self (decr r t) = self t"
  "name (decr r t) = name t" "trace (decr r t) = trace t"
  "store (decr r t) = store t" "compare (decr r t) = compare t"
  "length (heap (decr r t)) = length (heap t)"
  by (simp_all add: decr_def)

lemma reclaim_tail:
  "(let rl = reclaimLater x;
        t3 = emit (ReclaimNodes recv (nodeLoc_Node (rnl_root x)) (Some rl)) t2;
        t4 = (case fst rl of None \<Rightarrow> t3 | Some n \<Rightarrow> emit (ReclaimNodes recv (Some n) None) t3);
        t5 = (case snd rl of None \<Rightarrow> t4 | Some n \<Rightarrow> emit (ReclaimNodes recv (Some n) None) t4);
        t6 = emit (FreeNodeLoc recv (rnl_root x)) t5
    in emit (FreeRootNodeLoc recv r) t6) = t2\<lparr>trace := trace t2 @ reclamation recv r x\<rparr>"
  by (cases "fst (reclaimLater x)"; cases "snd (reclaimLater x)") (simp_all add: reclamation_def emit_def)

lemma rootDecRef_unlocked_unfold:
  "rootDecRef_unlocked recv r t =
    (if \<not> r < length (heap t) then Inl InvalidPointer
     else if 0 < sint (refs (heap t ! r) - 1) then Inr ((), decr r t)
     else
       (case (if chainedCollection (heap t ! r) \<noteq> None \<and> chainedRootNodeLoc (heap t ! r) \<noteq> None
              then rootDecRef_unlocked (the (chainedCollection (heap t ! r)))
                       (the (chainedRootNodeLoc (heap t ! r))) (decr r t)
              else Inr ((), decr r t)) of
            Inl p \<Rightarrow> Inl p
          | Inr (u, t2) \<Rightarrow> Inr ((), t2\<lparr>trace := trace t2 @ reclamation recv r (heap t2 ! r)\<rparr>)))"
  apply (subst rootDecRef_unlocked.simps)
  apply (simp only: Let_def reclaim_tail [unfolded Let_def] decr_def [symmetric])
  apply (simp add: decr_def)
  done

lemma same_but_refs_decr: "same_but_refs (heap (decr r t) ! q) (heap t ! q)"
  by (cases "q = r"; cases "r < length (heap t)")
     (simp_all add: decr_def same_but_refs_def list_update_beyond)

lemma same_but_refs_trans: "same_but_refs a b \<Longrightarrow> same_but_refs b c \<Longrightarrow> same_but_refs a c"
  by (simp add: same_but_refs_def)


lemma rootDecRef_unlocked_frame:
  "rootDecRef_unlocked recv r t = Inr (u, t') \<Longrightarrow>
     length (heap t') = length (heap t) \<and> root t' = root t \<and> self t' = self t \<and> name t' = name t \<and>
     store t' = store t \<and> compare t' = compare t \<and>
     (\<forall>q. same_but_refs (heap t' ! q) (heap t ! q)) \<and>
     (\<exists>evs. trace t' = trace t @ evs)"
proof (induction recv r t arbitrary: u t' rule: rootDecRef_unlocked.induct)
  case (1 recv r t)
  note eq = "1.prems" [unfolded rootDecRef_unlocked_unfold [of recv r t]]
  from eq have valid: "r < length (heap t)" by (simp split: if_splits)
  show ?case
  proof (cases "0 < sint (refs (heap t ! r) - 1)")
    case True
    with eq valid have "t' = decr r t" by simp
    then show ?thesis by (simp add: same_but_refs_decr)
  next
    case False
    show ?thesis
    proof (cases "chainedCollection (heap t ! r) \<noteq> None \<and> chainedRootNodeLoc (heap t ! r) \<noteq> None")
      case True
      with False eq valid obtain t2 where
        rec: "rootDecRef_unlocked (the (chainedCollection (heap t ! r)))
                (the (chainedRootNodeLoc (heap t ! r))) (decr r t) = Inr ((), t2)"
        and t': "t' = t2\<lparr>trace := trace t2 @ reclamation recv r (heap t2 ! r)\<rparr>"
        by (auto split: sum.splits)
      have "length (heap t2) = length (heap (decr r t)) \<and> root t2 = root (decr r t) \<and>
         self t2 = self (decr r t) \<and> name t2 = name (decr r t) \<and>
         store t2 = store (decr r t) \<and> compare t2 = compare (decr r t) \<and>
         (\<forall>q. same_but_refs (heap t2 ! q) (heap (decr r t) ! q)) \<and>
         (\<exists>evs. trace t2 = trace (decr r t) @ evs)"
        using "1.IH" [OF _ refl, of "()" t2] valid False True rec
        by (simp add: decr_def)
      with t' show ?thesis
        by (auto intro: same_but_refs_trans [OF _ same_but_refs_decr])
    next
      case nochain: False
      with False eq valid have "t' = (decr r t)\<lparr>trace := trace (decr r t) @ reclamation recv r (heap (decr r t) ! r)\<rparr>"
        by auto
      then show ?thesis by (simp add: same_but_refs_decr)
    qed
  qed
qed

text \<open>Unfolding everything, to run the functions on the example states.\<close>

lemmas ex_defs = exCollection_def exRoot_def exStore_def exItem_def exLeaf_def exTree_def
  exPersisted_def exFailingStore_def exOther_def exChain_def treapStore_def
  exHalfPersisted_def exAfterSet_def exAfterDelete_def

lemmas run_defs = SetItem_def Set_def Delete_def GetItem_def Get_def GetTotals_def Write_def
  UnmarshalJSON_def rootCAS_def rootAddRef_def rootDecRef_def deferred_rootDecRef_def
  rootDecRef_unlocked_unfold decr_def reclamation_def mkRootNodeLoc_def mkNodeLoc_def mkNode_def
  NumValBytes_def len_def emit_def nodeLoc_read_def itemLoc_read_def nodeLoc_Node_def
  itemLoc_Item_def nodeLoc_isEmpty_def ploc_isEmpty_def ploc_empty_def empty_nodeLoc_def
  empty_itemLoc_def
  readNode_def readKey_def numInfo_def rebuild_def Let_def
  GetItem_loop.simps flushItems.simps Store_split.simps Store_union.simps Store_join.simps
  newNode_def subtree_def inorder.simps dirtyItems.simps counts_ok.simps nodes_of.simps
  itemBytes_def subNodes_def subBytes_def wf_heap_def

lemma rootDecRef_frame:
  "rootDecRef r t = Inr (u, t') \<Longrightarrow>
     length (heap t') = length (heap t) \<and> root t' = root t \<and> self t' = self t \<and> name t' = name t \<and>
     store t' = store t \<and> compare t' = compare t \<and>
     (\<forall>q. same_but_refs (heap t' ! q) (heap t ! q)) \<and>
     (\<exists>evs. trace t' = trace t @ evs)"
  unfolding rootDecRef_def by (rule rootDecRef_unlocked_frame)

lemma mkRootNodeLoc_simps:
  "mkRootNodeLoc r t = (a, t') \<Longrightarrow>
     a = length (heap t) \<and> root t' = root t \<and> self t' = self t \<and> name t' = name t \<and>
     store t' = store t \<and> compare t' = compare t \<and> trace t' = trace t \<and>
     heap t' = heap t @ [\<lparr>refs = 1, rnl_root = r, chainedCollection = None,
                             chainedRootNodeLoc = None, reclaimLater = (None, None)\<rparr>]"
  by (auto simp: mkRootNodeLoc_def)

lemma deferred_rootDecRef_res:
  "deferred_rootDecRef rnl res t = Inr (x, t') \<Longrightarrow> x = res"
  by (auto simp: deferred_rootDecRef_def split: sum.splits)

lemma deferred_rootDecRef_root:
  "deferred_rootDecRef rnl res t = Inr (x, t') \<Longrightarrow> x = res \<and> root t' = root t"
  by (auto simp: deferred_rootDecRef_def split: sum.splits dest!: rootDecRef_frame)

lemma rootCAS_False: "rootCAS prev nxt t = Inr (False, t') \<Longrightarrow> t' = t"
  by (auto simp: rootCAS_def Let_def split: if_splits option.splits)

lemma rootAddRef_root: "rootAddRef t = Inr (rnl, t1) \<Longrightarrow> root t1 = root t \<and> root t = Some rnl"
  by (auto simp: rootAddRef_def split: option.splits if_splits)

lemma GetItem_root: "GetItem key wv t = Inr (g, t') \<Longrightarrow> root t' = root t"
  by (auto simp: GetItem_def split: sum.splits dest!: deferred_rootDecRef_root rootAddRef_root)

lemma SetItem_error_root:
  assumes "SetItem env i t = Inr (Some e, t')"
  shows "(invalidItem i \<and> t' = t) \<or> (\<exists>rnl t1. rootAddRef t = Inr (rnl, t1) \<and> root t' = root (env t1))"
proof (cases "invalidItem i")
  case True
  with assms show ?thesis by (auto simp: SetItem_def invalidItem_def split: if_splits)
next
  case False
  then have v: "\<not> (Key i = None \<or> len (Key i) > 0xffff \<or> len (Key i) = 0 \<or> Val i = None)"
    "\<not> Priority i < 0"
    by (auto simp: invalidItem_def)
  from assms v obtain rnl t1 where ar: "rootAddRef t = Inr (rnl, t1)"
    by (auto simp: SetItem_def split: sum.splits)
  have "root t' = root (env t1)"
    using assms v ar
    by (auto simp: SetItem_def Let_def mkRootNodeLoc_def
             split: sum.splits prod.splits bool.splits
             dest!: deferred_rootDecRef_root rootCAS_False)
  with ar show ?thesis by blast
qed

lemma Delete_error_root:
  assumes "Delete env key t = Inr ((b, Some e), t')"
  shows "\<not> b \<and> (\<exists>rnl t1. rootAddRef t = Inr (rnl, t1) \<and> root t' = root (env t1))"
proof -
  from assms obtain rnl t1 where ar: "rootAddRef t = Inr (rnl, t1)"
    by (auto simp: Delete_def split: sum.splits)
  have "\<not> b \<and> root t' = root (env t1)"
    using assms ar
    by (auto simp: Delete_def Let_def mkRootNodeLoc_def
             split: sum.splits prod.splits bool.splits option.splits if_splits
             dest!: deferred_rootDecRef_root rootCAS_False GetItem_root)
  with ar show ?thesis by blast
qed

lemma rootCAS_True:
  "rootCAS prev (Some n) t = Inr (True, t') \<Longrightarrow>
     root t = prev \<and> root t' = Some n \<and> length (heap t') = length (heap t) \<and> trace t' = trace t \<and>
     self t' = self t \<and> store t' = store t \<and> compare t' = compare t \<and>
     (\<forall>q. rnl_root (heap t' ! q) = rnl_root (heap t ! q) \<and>
          reclaimLater (heap t' ! q) = reclaimLater (heap t ! q))"
  by (auto simp: rootCAS_def Let_def nth_list_update split: if_splits option.splits)

lemma deferred_rootDecRef_frame:
  "deferred_rootDecRef rnl res t = Inr (x, t') \<Longrightarrow>
     x = res \<and> length (heap t') = length (heap t) \<and> root t' = root t \<and> self t' = self t \<and>
     store t' = store t \<and> compare t' = compare t \<and>
     (\<forall>q. same_but_refs (heap t' ! q) (heap t ! q)) \<and>
     (\<exists>evs. trace t' = trace t @ evs)"
  by (auto simp: deferred_rootDecRef_def split: sum.splits dest!: rootDecRef_frame)

lemma dirtyItems_subseq: "subseq (dirtyItems n) (inorder n)"
proof (induction n rule: dirtyItems.induct)
  case (1 n)
  show ?case
  proof (cases "\<not> ploc_isEmpty (loc n)")
    case True
    then show ?thesis by (subst dirtyItems.simps) simp
  next
    case False
    show ?thesis
    proof (cases "nodeLoc_Node n")
      case None
      with False show ?thesis by (subst dirtyItems.simps) simp
    next
      case (Some nd)
      then have st: "subtree n = Some nd"
        by (auto simp: subtree_def nodeLoc_isEmpty_def nodeLoc_Node_def split: if_splits)
      from "1.IH"(1) [OF _ Some] "1.IH"(2) [OF _ Some] False
      have "subseq (dirtyItems (left nd)) (inorder (left nd))"
        "subseq (dirtyItems (right nd)) (inorder (right nd))" by simp_all
      then have "subseq (dirtyItems (left nd) @ [item nd] @ dirtyItems (right nd))
                  (inorder (left nd) @ [item nd] @ inorder (right nd))"
        by (intro list_emb_append_mono) simp_all
      with False Some st show ?thesis
        by (subst dirtyItems.simps, subst inorder.simps) simp
    qed
  qed
qed

lemma flushItems_trace:
  "flushItems n t = (res, t') \<Longrightarrow>
     \<exists>ws. t' = t\<lparr>trace := trace t @ map (ItemWrite (self t)) ws\<rparr> \<and> prefix ws (dirtyItems n) \<and>
       (res = None \<longrightarrow> ws = dirtyItems n) \<and>
       ((\<forall>i \<in> set (dirtyItems n). \<not> itemWriteFails (store t) i) \<longrightarrow> res = None)"
proof (induction n t arbitrary: res t' rule: flushItems.induct)
  case (1 nloc t)
  show ?case
  proof (cases "\<not> ploc_isEmpty (loc nloc)")
    case True
    with "1.prems" have "t' = t" "res = None" by (simp_all add: flushItems.simps)
    moreover from True have "dirtyItems nloc = []" by (subst dirtyItems.simps) simp
    ultimately show ?thesis by (intro exI [of _ "[]"]) simp
  next
    case False
    show ?thesis
    proof (cases "nodeLoc_Node nloc")
      case None
      with False "1.prems" have "t' = t" "res = None" by (simp_all add: flushItems.simps)
      moreover from False None have "dirtyItems nloc = []" by (subst dirtyItems.simps) simp
      ultimately show ?thesis by (intro exI [of _ "[]"]) simp
    next
      case (Some nd)
      from False Some have di: "dirtyItems nloc = dirtyItems (left nd) @ [item nd] @ dirtyItems (right nd)"
        by (subst dirtyItems.simps) simp
      obtain r1 t1 where l: "flushItems (left nd) t = (r1, t1)" by (cases "flushItems (left nd) t")
      from "1.IH"(1) [OF False Some l] obtain ws1 where
        w1: "t1 = t\<lparr>trace := trace t @ map (ItemWrite (self t)) ws1\<rparr>" "prefix ws1 (dirtyItems (left nd))"
          "r1 = None \<longrightarrow> ws1 = dirtyItems (left nd)"
          "(\<forall>i \<in> set (dirtyItems (left nd)). \<not> itemWriteFails (store t) i) \<longrightarrow> r1 = None"
        by blast
      show ?thesis
      proof (cases r1)
        case (Some e)
        with False \<open>nodeLoc_Node nloc = Some nd\<close> l "1.prems" have "t' = t1" "res = Some e"
          by (simp_all add: flushItems.simps)
        with w1 Some di show ?thesis
          by (intro exI [of _ ws1]) (auto simp: prefix_def)
      next
        case None
        note r1 = None
        with w1 have ws1: "ws1 = dirtyItems (left nd)" by simp
        show ?thesis
        proof (cases "itemWriteFails (store t1) (item nd)")
          case True
          with False \<open>nodeLoc_Node nloc = Some nd\<close> l r1 "1.prems"
          have "t' = t1" "res = Some (StoreError IOError)"
            by (simp_all add: flushItems.simps)
          with w1 ws1 di True show ?thesis
            by (intro exI [of _ ws1]) (auto simp: prefix_def)
        next
          case nf: False
          let ?t2 = "emit (ItemWrite (self t1) (item nd)) t1"
          from False \<open>nodeLoc_Node nloc = Some nd\<close> l r1 nf "1.prems"
          have r: "flushItems (right nd) ?t2 = (res, t')"
            by (simp add: flushItems.simps)
          from "1.IH"(2) [OF False \<open>nodeLoc_Node nloc = Some nd\<close> l [symmetric] r1 nf r]
          obtain ws2 where
            w2: "t' = ?t2\<lparr>trace := trace ?t2 @ map (ItemWrite (self ?t2)) ws2\<rparr>"
              "prefix ws2 (dirtyItems (right nd))"
              "res = None \<longrightarrow> ws2 = dirtyItems (right nd)"
              "(\<forall>i \<in> set (dirtyItems (right nd)). \<not> itemWriteFails (store ?t2) i) \<longrightarrow> res = None"
            by blast
          from w1 w2 ws1 di show ?thesis
            by (intro exI [of _ "ws1 @ [item nd] @ ws2"]) (auto simp: emit_def prefix_def)
        qed
      qed
    qed
  qed
qed

lemma rootAddRef_frame:
  "rootAddRef t = Inr (rnl, t1) \<Longrightarrow>
     root t = Some rnl \<and> rnl < length (heap t) \<and> root t1 = root t \<and> self t1 = self t \<and>
     store t1 = store t \<and> compare t1 = compare t \<and> trace t1 = trace t \<and>
     length (heap t1) = length (heap t) \<and> (\<forall>q. same_but_refs (heap t1 ! q) (heap t ! q)) \<and>
     refs (heap t1 ! rnl) = refs (heap t ! rnl) + 1"
  by (auto simp: rootAddRef_def same_but_refs_def nth_list_update split: option.splits if_splits)

lemma counts_ok_totals:
  "counts_ok n \<Longrightarrow>
     subNodes n = of_nat (length (inorder n)) \<and>
     subBytes n = of_nat (sum_list (map itemBytes (inorder n)))"
proof (induction n rule: inorder.induct)
  case (1 n)
  show ?case
  proof (cases "subtree n")
    case None
    then show ?thesis by (simp add: subNodes_def subBytes_def inorder.simps)
  next
    case (Some nd)
    with "1.prems" have ok: "numNodes nd = 1 + subNodes (left nd) + subNodes (right nd)"
      "numBytes nd = of_nat (itemBytes (item nd)) + subBytes (left nd) + subBytes (right nd)"
      "counts_ok (left nd)" "counts_ok (right nd)"
      by (simp_all add: counts_ok.simps [of n])
    from "1.IH"(1) [OF Some ok(3)] "1.IH"(2) [OF Some ok(4)] ok(1,2) Some
    show ?thesis
      by (simp add: subNodes_def subBytes_def inorder.simps [of n])
  qed
qed

lemma bytesCompare_ok: "KeyCompare_ok bytesCompare"
proof -
  have refl: "bytesCompare a a = 0" for a by (induction a) simp_all
  have anti: "bytesCompare a b < 0 \<longleftrightarrow> 0 < bytesCompare b a" for a b
    by (induction a b rule: bytesCompare.induct) auto
  from refl anti show ?thesis by (simp add: KeyCompare_ok_def)
qed

lemma readNode_Some_read:
  "readNode st n = Inr (Some nd) \<Longrightarrow> nodeLoc_read st n = Inr (Some nd) \<and> \<not> nodeLoc_isEmpty n"
  by (auto simp: readNode_def split: sum.splits if_splits)

lemma GetItem_loop_node:
  assumes "readNode st n = Inr (Some nd)"
    and "itemLoc_read st (item nd) False = Inr (Some it)" and "Key it = Some k'"
  shows "GetItem_loop st cmp key wv n =
     (if cmp key k' < 0 then GetItem_loop st cmp key wv (left nd)
      else if 0 < cmp key k' then GetItem_loop st cmp key wv (right nd)
      else if wv then (case itemLoc_read st (item nd) wv of
                          Inl err \<Rightarrow> Inl (StoreError err) | Inr x \<Rightarrow> Inr x)
      else Inr (Some it))"
  using assms readNode_Some_read [OF assms(1)]
  by (subst GetItem_loop.simps) (simp add: Let_def)

lemma readNode_rebuild:
  "rebuild st i l r = Inr x \<Longrightarrow>
     \<exists>nn nb. readNode st x = Inr (Some (Node i l r nn nb))"
  by (auto simp: rebuild_def readNode_def nodeLoc_read_def nodeLoc_Node_def nodeLoc_isEmpty_def
        mkNodeLoc_def mkNode_def split: sum.splits option.splits prod.splits)

lemma rebuild_item_read:
  "rebuild st i l r = Inr x \<Longrightarrow> \<exists>it. itemLoc_read st i False = Inr (Some it)"
  by (auto simp: rebuild_def split: sum.splits option.splits)

lemma readNode_empty [simp]: "readNode st empty_nodeLoc = Inr None"
  by (simp add: readNode_def nodeLoc_read_def nodeLoc_Node_def nodeLoc_isEmpty_def empty_nodeLoc_def
      ploc_isEmpty_def)

lemma Store_split_empty:
  "readNode st n = Inr None \<Longrightarrow> Store_split st cmp n s = Inr (empty_nodeLoc, empty_nodeLoc, empty_nodeLoc)"
  by (subst Store_split.simps) simp

lemma Store_split_node:
  assumes "readNode st n = Inr (Some nd)" and "readKey st nd = Inr (it, k)"
  shows "Store_split st cmp n s =
     (if cmp s k = 0 then Inr (left nd, n, right nd)
      else if cmp s k < 0 then
        (case Store_split st cmp (left nd) s of
           Inl err \<Rightarrow> Inl err
         | Inr (lo, mid, hi) \<Rightarrow>
             (case rebuild st (item nd) hi (right nd) of
                Inl err \<Rightarrow> Inl err
              | Inr hi' \<Rightarrow> Inr (lo, mid, hi')))
      else
        (case Store_split st cmp (right nd) s of
           Inl err \<Rightarrow> Inl err
         | Inr (lo, mid, hi) \<Rightarrow>
             (case rebuild st (item nd) (left nd) lo of
                Inl err \<Rightarrow> Inl err
              | Inr lo' \<Rightarrow> Inr (lo', mid, hi))))"
  using assms by (subst Store_split.simps) (simp add: Let_def)

lemma Store_split_single:
  assumes "single st il b" and "itemLoc_read st il False = Inr (Some it)" and "Key it = Some k"
    and "Store_split st cmp b s = Inr (lo, mid, hi)"
  shows "(cmp s k = 0 \<longrightarrow> readNode st lo = Inr None \<and> mid = b \<and> readNode st hi = Inr None) \<and>
         (cmp s k < 0 \<longrightarrow> readNode st lo = Inr None \<and> readNode st mid = Inr None \<and> single st il hi) \<and>
         (0 < cmp s k \<longrightarrow> single st il lo \<and> readNode st mid = Inr None \<and> readNode st hi = Inr None)"
proof -
  from assms(1) obtain bn where bn: "readNode st b = Inr (Some bn)" "item bn = il"
    "readNode st (left bn) = Inr None" "readNode st (right bn) = Inr None"
    by (auto simp: single_def)
  from assms(2,3) bn have rk: "readKey st bn = Inr (it, k)" by (simp add: readKey_def)
  note sp = assms(4) [unfolded Store_split_node [OF bn(1) rk]]
  show ?thesis
  proof (intro conjI impI)
    assume "cmp s k = 0"
    with sp bn show "readNode st lo = Inr None" "mid = b" "readNode st hi = Inr None"
      by (simp_all add: Let_def)
  next
    assume c: "cmp s k < 0"
    with sp bn obtain hi' where
      "rebuild st il empty_nodeLoc (right bn) = Inr hi'" "lo = empty_nodeLoc" "mid = empty_nodeLoc" "hi = hi'"
      by (auto simp: Let_def Store_split_empty split: sum.splits)
    with bn readNode_rebuild [of st il empty_nodeLoc "right bn" hi']
    show "readNode st lo = Inr None" "readNode st mid = Inr None" "single st il hi"
      by (auto simp: single_def)
  next
    assume c: "0 < cmp s k"
    with sp bn obtain lo' where
      "rebuild st il (left bn) empty_nodeLoc = Inr lo'" "lo = lo'" "mid = empty_nodeLoc" "hi = empty_nodeLoc"
      by (auto simp: Let_def Store_split_empty split: sum.splits)
    with bn readNode_rebuild [of st il "left bn" empty_nodeLoc lo']
    show "single st il lo" "readNode st mid = Inr None" "readNode st hi = Inr None"
      by (auto simp: single_def)
  qed
qed

lemma Store_union_node:
  assumes "readNode st this = Inr (Some thisNode)" and "readNode st that = Inr (Some thatNode)"
    and "readKey st thisNode = Inr (thisItem, thisKey)"
    and "readKey st thatNode = Inr (thatItem, thatKey)"
  shows "Store_union st cmp this that =
    (if Priority thatItem \<le> Priority thisItem then
           (case Store_split st cmp that thisKey of
              Inl err \<Rightarrow> Inl err
            | Inr (lo, mid, hi) \<Rightarrow>
           (case Store_union st cmp (left thisNode) lo of
              Inl err \<Rightarrow> Inl err
            | Inr newLeft \<Rightarrow>
           (case Store_union st cmp (right thisNode) hi of
              Inl err \<Rightarrow> Inl err
            | Inr newRight \<Rightarrow>
           (case readNode st mid of
              Inl err \<Rightarrow> Inl err
            | Inr None \<Rightarrow> rebuild st (item thisNode) newLeft newRight
            | Inr (Some midNode) \<Rightarrow> rebuild st (item midNode) newLeft newRight))))
         else
           (case Store_split st cmp this thatKey of
              Inl err \<Rightarrow> Inl err
            | Inr (lo, mid, hi) \<Rightarrow>
           (case Store_union st cmp lo (left thatNode) of
              Inl err \<Rightarrow> Inl err
            | Inr newLeft \<Rightarrow>
           (case Store_union st cmp hi (right thatNode) of
              Inl err \<Rightarrow> Inl err
            | Inr newRight \<Rightarrow> rebuild st (item thatNode) newLeft newRight))))"
  using assms by (subst Store_union.simps) simp

lemma readKey_item:
  "readKey st nd = Inr (it, k) \<Longrightarrow> itemLoc_read st (item nd) False = Inr (Some it) \<and> Key it = Some k"
  by (auto simp: readKey_def split: sum.splits option.splits)

lemma union_single_lookup:
  assumes ok: "KeyCompare_ok cmp"
    and il: "itemLoc_read st il False = Inr (Some it)" "itemLoc_read st il True = Inr (Some it)"
      "Key it = Some k"
  shows "single st il b \<Longrightarrow> Store_union st cmp a b = Inr r \<Longrightarrow>
           GetItem_loop st cmp k True r = Inr (Some it)"
proof (induction "size a" arbitrary: a b r rule: less_induct)
  case less
  from ok have kk: "cmp k k = 0" and anti: "\<And>x y. cmp x y < 0 \<longleftrightarrow> 0 < cmp y x"
    by (simp_all add: KeyCompare_ok_def)
  from less.prems(1) obtain bn where bn: "readNode st b = Inr (Some bn)" "item bn = il"
    "readNode st (left bn) = Inr None" "readNode st (right bn) = Inr None"
    by (auto simp: single_def)
  from il bn have rkb: "readKey st bn = Inr (it, k)" by (simp add: readKey_def)
  have found: "GetItem_loop st cmp k True x = Inr (Some it)"
    if "readNode st x = Inr (Some xn)" "item xn = il" for x xn
    using GetItem_loop_node [OF that(1), of it k cmp k True] il that(2) kk by simp
  show ?case
  proof (cases "readNode st a")
    case (Inl e)
    with less.prems(2) show ?thesis by (subst (asm) Store_union.simps) simp
  next
    case (Inr x)
    show ?thesis
    proof (cases x)
      case None
      with Inr less.prems(2) have "r = b" by (subst (asm) Store_union.simps) simp
      with found [OF bn(1,2)] show ?thesis by simp
    next
      case (Some an)
      note an = Inr [unfolded Some]
      from an bn less.prems(2) obtain ai ak where rka: "readKey st an = Inr (ai, ak)"
        by (subst (asm) Store_union.simps) (auto split: sum.splits)
      note un = less.prems(2) [unfolded Store_union_node [OF an bn(1) rka rkb]]
      note sz = readNode_size [OF an]
      show ?thesis
      proof (cases "Priority it \<le> Priority ai")
        case True
        with un obtain lo mid hi newLeft newRight where
          sp: "Store_split st cmp b ak = Inr (lo, mid, hi)" and
          ul: "Store_union st cmp (left an) lo = Inr newLeft" and
          ur: "Store_union st cmp (right an) hi = Inr newRight" and
          fin: "(case readNode st mid of
              Inl err \<Rightarrow> Inl err
            | Inr None \<Rightarrow> rebuild st (item an) newLeft newRight
            | Inr (Some midNode) \<Rightarrow> rebuild st (item midNode) newLeft newRight) = Inr r"
          by (auto split: sum.splits)
        note ss = Store_split_single [OF less.prems(1) il(1) il(3) sp]
        consider (eq) "cmp ak k = 0" | (lt) "cmp ak k < 0" | (gt) "0 < cmp ak k" by linarith
        then show ?thesis
        proof cases
          case eq
          with ss bn fin have "rebuild st il newLeft newRight = Inr r" by simp
          from readNode_rebuild [OF this] obtain nn nb where
            "readNode st r = Inr (Some (Node il newLeft newRight nn nb))" by blast
          from found [OF this] show ?thesis by simp
        next
          case lt
          with ss fin have rb: "rebuild st (item an) newLeft newRight = Inr r" and sh: "single st il hi"
            by simp_all
          from readNode_rebuild [OF rb] obtain nn nb where
            rr: "readNode st r = Inr (Some (Node (item an) newLeft newRight nn nb))" by blast
          from lt anti have c: "0 < cmp k ak" by simp
          from less.hyps [OF _ sh ur] sz have "GetItem_loop st cmp k True newRight = Inr (Some it)"
            by simp
          with GetItem_loop_node [OF rr, of ai ak cmp k True] readKey_item [OF rka] c
          show ?thesis by simp
        next
          case gt
          with ss fin have rb: "rebuild st (item an) newLeft newRight = Inr r" and sl: "single st il lo"
            by simp_all
          from readNode_rebuild [OF rb] obtain nn nb where
            rr: "readNode st r = Inr (Some (Node (item an) newLeft newRight nn nb))" by blast
          from gt anti have c: "cmp k ak < 0" by simp
          from less.hyps [OF _ sl ul] sz have "GetItem_loop st cmp k True newLeft = Inr (Some it)"
            by simp
          with GetItem_loop_node [OF rr, of ai ak cmp k True] readKey_item [OF rka] c
          show ?thesis by simp
        qed
      next
        case False
        with un bn obtain newLeft newRight where "rebuild st il newLeft newRight = Inr r"
          by (auto split: sum.splits)
        from readNode_rebuild [OF this] obtain nn nb where
          "readNode st r = Inr (Some (Node il newLeft newRight nn nb))" by blast
        from found [OF this] show ?thesis by simp
      qed
    qed
  qed
qed

lemma wf_heap_nth:
  "wf_heap t \<Longrightarrow> q < length (heap t) \<Longrightarrow> chainedRootNodeLoc (heap t ! q) = Some n \<Longrightarrow> n < length (heap t)"
  by (auto simp: wf_heap_def list_all_length split: option.splits)

lemma wf_heap_frame:
  assumes "wf_heap t" and "length (heap t') = length (heap t)"
    and "\<forall>q. same_but_refs (heap t' ! q) (heap t ! q)"
  shows "wf_heap t'"
  using assms by (auto simp: wf_heap_def list_all_length same_but_refs_def split: option.splits)

lemma wf_heap_decr: "wf_heap t \<Longrightarrow> wf_heap (decr r t)"
  by (rule wf_heap_frame [where t = t]) (simp_all add: same_but_refs_decr)

lemma decr_chain:
  "chainedCollection (heap (decr r t) ! q) = chainedCollection (heap t ! q)"
  "chainedRootNodeLoc (heap (decr r t) ! q) = chainedRootNodeLoc (heap t ! q)"
  using same_but_refs_decr [of r t q] by (simp_all add: same_but_refs_def)

lemma rootDecRef_unlocked_returns:
  "wf_heap t \<Longrightarrow> r < length (heap t) \<Longrightarrow> \<exists>t'. rootDecRef_unlocked recv r t = Inr ((), t')"
proof (induction recv r t rule: rootDecRef_unlocked.induct)
  case (1 recv r t)
  show ?case
  proof (cases "0 < sint (refs (heap t ! r) - 1)")
    case True
    with "1.prems" show ?thesis by (subst rootDecRef_unlocked_unfold) simp
  next
    case False
    show ?thesis
    proof (cases "chainedCollection (heap t ! r) \<noteq> None \<and> chainedRootNodeLoc (heap t ! r) \<noteq> None")
      case True
      then obtain c n where cn: "chainedCollection (heap t ! r) = Some c"
        "chainedRootNodeLoc (heap t ! r) = Some n" by auto
      from wf_heap_nth [OF "1.prems"(1) "1.prems"(2) cn(2)] have n: "n < length (heap (decr r t))"
        by simp
      have "\<exists>t'. rootDecRef_unlocked c n (decr r t) = Inr ((), t')"
        using "1.IH" [OF _ refl, of ] "1.prems" False True cn n wf_heap_decr [OF "1.prems"(1), of r]
        by (simp add: decr_def)
      with "1.prems" False cn show ?thesis
        by (subst rootDecRef_unlocked_unfold) auto
    next
      case nochain: False
      with "1.prems" False show ?thesis by (subst rootDecRef_unlocked_unfold) auto
    qed
  qed
qed

lemma deferred_rootDecRef_returns:
  "wf_heap t \<Longrightarrow> r < length (heap t) \<Longrightarrow> \<exists>t'. deferred_rootDecRef r res t = Inr (res, t')"
  using rootDecRef_unlocked_returns [of t r "self t"]
  by (auto simp: deferred_rootDecRef_def rootDecRef_def)

lemma rootCAS_True_chain:
  "rootCAS (Some p) (Some n) t = Inr (True, t') \<Longrightarrow> n < length (heap t) \<Longrightarrow> wf_heap t \<Longrightarrow> wf_heap t'"
  by (auto simp: rootCAS_def Let_def wf_heap_def list_all_length nth_list_update
           split: if_splits option.splits)

lemma SetItem_success:
  assumes "SetItem env i t = Inr (None, t')"
  shows "\<exists>rnl t1 r. rootAddRef t = Inr (rnl, t1) \<and>
     st_union (store (env t1)) (compare (env t1)) (rnl_root (heap t ! rnl))
        (mkNodeLoc (Some (newNode i))) = Inr r \<and>
     root (env t1) = Some rnl \<and>
     root t' = Some (length (heap (env t1))) \<and>
     length (heap t') = Suc (length (heap (env t1))) \<and>
     rnl_root (heap t' ! length (heap (env t1))) = r \<and>
     reclaimLater (heap t' ! length (heap (env t1))) = (Some (newNode i), None) \<and>
     store t' = store (env t1) \<and> compare t' = compare (env t1) \<and>
     (wf_heap (env t1) \<longrightarrow> wf_heap t') \<and> \<not> invalidItem i"
proof -
  from assms have v: "\<not> invalidItem i"
    by (auto simp: SetItem_def invalidItem_def split: if_splits)
  then have v': "\<not> (Key i = None \<or> len (Key i) > 0xffff \<or> len (Key i) = 0 \<or> Val i = None)"
    "\<not> Priority i < 0" by (auto simp: invalidItem_def)
  from assms v' obtain rnl t1 where ar: "rootAddRef t = Inr (rnl, t1)"
    by (auto simp: SetItem_def split: sum.splits)
  note fr = rootAddRef_frame [OF ar]
  from fr have R: "rnl_root (heap t1 ! rnl) = rnl_root (heap t ! rnl)" by (simp add: same_but_refs_def)
  let ?t2 = "env t1"
  let ?nloc = "mkNodeLoc (Some (newNode i))"
  have nloc: "Node (ItemLoc (iloc (item (mkNode None None None 1
       (of_nat (len (Key i)) + NumValBytes i)))) True (Some i))
       (left (mkNode None None None 1 (of_nat (len (Key i)) + NumValBytes i)))
       (right (mkNode None None None 1 (of_nat (len (Key i)) + NumValBytes i)))
       (numNodes (mkNode None None None 1 (of_nat (len (Key i)) + NumValBytes i)))
       (numBytes (mkNode None None None 1 (of_nat (len (Key i)) + NumValBytes i))) = newNode i"
    by (simp add: newNode_def mkNode_def empty_itemLoc_def)
  from assms [unfolded SetItem_def Let_def nloc] v' ar R obtain r where
    un: "st_union (store ?t2) (compare ?t2) (rnl_root (heap t ! rnl)) ?nloc = Inr r"
    by (auto split: sum.splits dest!: deferred_rootDecRef_res)
  define t4 where "t4 = ?t2\<lparr>heap := heap ?t2 @ [\<lparr>refs = 1, rnl_root = r, chainedCollection = None,
                             chainedRootNodeLoc = None, reclaimLater = (Some (newNode i), None)\<rparr>]\<rparr>"
  have t4: "length (heap t4) = Suc (length (heap ?t2))"
    "rnl_root (heap t4 ! length (heap ?t2)) = r"
    "reclaimLater (heap t4 ! length (heap ?t2)) = (Some (newNode i), None)"
    "store t4 = store ?t2" "compare t4 = compare ?t2" "root t4 = root ?t2" "self t4 = self ?t2"
    by (simp_all add: t4_def)
  have wf4: "wf_heap ?t2 \<Longrightarrow> wf_heap t4"
    by (auto simp: wf_heap_def t4_def list_all_length nth_append split: option.splits)
  note unf = assms [unfolded SetItem_def Let_def nloc]
  from unf v' ar R un have body:
    "(case rootCAS (Some rnl) (Some (length (heap ?t2))) t4 of
        Inl p \<Rightarrow> Inl p
      | Inr (False, t5) \<Rightarrow> deferred_rootDecRef rnl (Some ConcurrentMutation) t5
      | Inr (True, t5) \<Rightarrow>
          (case rootDecRef rnl t5 of
             Inl p \<Rightarrow> Inl p
           | Inr (u, t6) \<Rightarrow>
               deferred_rootDecRef rnl None (emit (FreeNodeLoc (self t6) ?nloc) t6)))
      = Inr (None, t')"
    by (simp add: mkRootNodeLoc_def t4_def)
  moreover have "\<And>t5. rootCAS (Some rnl) (Some (length (heap ?t2))) t4 = Inr (False, t5) \<Longrightarrow>
      deferred_rootDecRef rnl (Some ConcurrentMutation) t5 \<noteq> Inr (None, t')"
    by (auto dest: deferred_rootDecRef_res)
  ultimately obtain t5 u t6 where
    cas: "rootCAS (Some rnl) (Some (length (heap ?t2))) t4 = Inr (True, t5)" and
    dr: "rootDecRef rnl t5 = Inr (u, t6)" and
    fin: "deferred_rootDecRef rnl (None :: error option) (emit (FreeNodeLoc (self t6) ?nloc) t6)
            = Inr (None, t')"
    by (auto split: sum.splits prod.splits bool.splits)
  note c = rootCAS_True [OF cas]
  note d = rootDecRef_frame [OF dr]
  note f = deferred_rootDecRef_frame [OF fin]
  have cell: "same_but_refs (heap t' ! q) (heap t5 ! q)" for q
    using d f by (auto simp: same_but_refs_def)
  have wf': "wf_heap ?t2 \<Longrightarrow> wf_heap t'"
  proof -
    assume "wf_heap ?t2"
    then have "wf_heap t5" using rootCAS_True_chain [OF cas] wf4 t4 by simp
    then show "wf_heap t'"
      by (rule wf_heap_frame) (use d f cell in auto)
  qed
  have "root ?t2 = Some rnl" using c t4 by simp
  moreover have "root t' = Some (length (heap ?t2))" using c d f by simp
  moreover have "length (heap t') = Suc (length (heap ?t2))" using c d f t4 by simp
  moreover have "rnl_root (heap t' ! length (heap ?t2)) = r"
    using cell [of "length (heap ?t2)"] c t4 by (simp add: same_but_refs_def)
  moreover have "reclaimLater (heap t' ! length (heap ?t2)) = (Some (newNode i), None)"
    using cell [of "length (heap ?t2)"] c t4 by (simp add: same_but_refs_def)
  moreover have "store t' = store ?t2" "compare t' = compare ?t2" using c d f t4 by simp_all
  ultimately show ?thesis using ar un v wf' by blast
qed

lemma read_store_cong:
  assumes "readFails st' = readFails st"
  shows "nodeLoc_read st' n = nodeLoc_read st n" "itemLoc_read st' i wv = itemLoc_read st i wv"
  using assms by (simp_all add: nodeLoc_read_def itemLoc_read_def)

lemma GetItem_loop_store_cong:
  assumes "readFails st' = readFails st"
  shows "GetItem_loop st' cmp key wv n = GetItem_loop st cmp key wv n"
proof (induction "size n" arbitrary: n rule: less_induct)
  case less
  note unf = GetItem_loop.simps [of st' cmp key wv n] GetItem_loop.simps [of st cmp key wv n]
  show ?case
  proof (cases "nodeLoc_read st n")
    case (Inl e)
    then show ?thesis
      unfolding unf by (simp add: read_store_cong [OF assms])
  next
    case (Inr x)
    show ?thesis
    proof (cases x)
      case None
      with Inr show ?thesis
        unfolding unf by (simp add: read_store_cong [OF assms])
    next
      case (Some nd)
      from nodeLoc_read_size [OF Inr [unfolded Some]] less.hyps
      have "GetItem_loop st' cmp key wv (left nd) = GetItem_loop st cmp key wv (left nd)"
        "GetItem_loop st' cmp key wv (right nd) = GetItem_loop st cmp key wv (right nd)"
        by simp_all
      with Inr Some show ?thesis
        unfolding unf
        by (simp add: read_store_cong [OF assms] Let_def
                 cong: sum.case_cong option.case_cong if_cong)
    qed
  qed
qed

lemma single_newNode: "single st (ItemLoc None True (Some i)) (mkNodeLoc (Some (newNode i)))"
proof -
  have "readNode st (mkNodeLoc (Some (newNode i))) = Inr (Some (newNode i))"
    by (simp add: readNode_def nodeLoc_read_def nodeLoc_Node_def nodeLoc_isEmpty_def mkNodeLoc_def)
  then show ?thesis
    by (simp add: single_def newNode_def)
qed




text \<open>
  The counts stay right: the node \<open>SetItem\<close> builds has them right, \<open>split\<close>, \<open>union\<close>
  and \<open>join\<close> keep them right, and so do \<open>SetItem\<close> and \<open>Delete\<close> (run alone, whatever
  they return) on a store with these operations.
\<close>

lemma readNode_subtree: "readNode st n = Inr x \<Longrightarrow> subtree n = x"
  by (auto simp: readNode_def nodeLoc_read_def subtree_def nodeLoc_isEmpty_def nodeLoc_Node_def
           split: sum.splits option.splits if_splits)

lemma numInfo_sub: "numInfo st n = Inr (a, b) \<Longrightarrow> a = subNodes n \<and> b = subBytes n"
  by (auto simp: numInfo_def subNodes_def subBytes_def dest!: readNode_subtree
           split: sum.splits option.splits)

lemma itemLoc_read_content: "itemLoc_read st i wv = Inr (Some it) \<Longrightarrow> icontent i = Some it"
  by (auto simp: itemLoc_read_def itemLoc_Item_def split: option.splits if_splits)

lemma counts_ok_node:
  "subtree n = Some nd \<Longrightarrow> counts_ok n \<longleftrightarrow>
     numNodes nd = 1 + subNodes (left nd) + subNodes (right nd) \<and>
     numBytes nd = of_nat (itemBytes (item nd)) + subBytes (left nd) + subBytes (right nd) \<and>
     counts_ok (left nd) \<and> counts_ok (right nd)"
  by (subst counts_ok.simps) simp

lemma counts_ok_none: "subtree n = None \<Longrightarrow> counts_ok n"
  by (subst counts_ok.simps) simp

lemma rebuild_counts_ok:
  assumes "rebuild st i l r = Inr x" and "counts_ok l" and "counts_ok r"
  shows "counts_ok x"
proof -
  from assms(1) obtain it ln lb rn rb where
    it: "itemLoc_read st i False = Inr (Some it)" and
    l: "numInfo st l = Inr (ln, lb)" and r: "numInfo st r = Inr (rn, rb)" and
    x: "x = mkNodeLoc (Some (Node i l r (ln + rn + 1)
              (lb + rb + (of_nat (len (Key it)) + NumValBytes it))))"
    by (auto simp: rebuild_def mkNode_def split: sum.splits option.splits prod.splits)
  have st: "subtree x = Some (Node i l r (ln + rn + 1)
              (lb + rb + (of_nat (len (Key it)) + NumValBytes it)))"
    by (simp add: x subtree_def mkNodeLoc_def nodeLoc_isEmpty_def nodeLoc_Node_def)
  from itemLoc_read_content [OF it] have "itemBytes i = len (Key it) + len (Val it)"
    by (simp add: itemBytes_def)
  with numInfo_sub [OF l] numInfo_sub [OF r] assms(2,3) show ?thesis
    by (simp add: counts_ok_node [OF st] NumValBytes_def)
qed


lemma counts_ok_empty [simp]: "counts_ok empty_nodeLoc"
  by (rule counts_ok_none)
     (simp add: subtree_def empty_nodeLoc_def nodeLoc_isEmpty_def nodeLoc_Node_def ploc_isEmpty_def)

lemma counts_ok_children:
  "readNode st n = Inr (Some nd) \<Longrightarrow> counts_ok n \<Longrightarrow> counts_ok (left nd) \<and> counts_ok (right nd)"
  by (drule readNode_subtree) (simp add: counts_ok_node)

lemma readKey_fails_split:
  "readNode st n = Inr (Some nd) \<Longrightarrow> Store_split st cmp n s = Inr x \<Longrightarrow> \<exists>it k. readKey st nd = Inr (it, k)"
  by (subst (asm) Store_split.simps) (auto split: sum.splits)

lemma Store_split_counts_ok:
  "Store_split st cmp n s = Inr (lo, mid, hi) \<Longrightarrow> counts_ok n \<Longrightarrow>
     counts_ok lo \<and> counts_ok mid \<and> counts_ok hi"
proof (induction "size n" arbitrary: n lo mid hi rule: less_induct)
  case less
  show ?case
  proof (cases "readNode st n")
    case (Inl e)
    with less.prems show ?thesis by (subst (asm) Store_split.simps) simp
  next
    case (Inr x)
    show ?thesis
    proof (cases x)
      case None
      with Inr less.prems show ?thesis by (simp add: Store_split_empty)
    next
      case (Some nd)
      note rd = Inr [unfolded Some]
      note ch = counts_ok_children [OF rd less.prems(2)]
      note sz = readNode_size [OF rd]
      from readKey_fails_split [OF rd less.prems(1)] obtain it k where
        rk: "readKey st nd = Inr (it, k)" by blast
      note sp = less.prems(1) [unfolded Store_split_node [OF rd rk]]
      consider (eq) "cmp s k = 0" | (lt) "cmp s k \<noteq> 0" "cmp s k < 0"
        | (gt) "cmp s k \<noteq> 0" "\<not> cmp s k < 0" by blast
      then show ?thesis
      proof cases
        case eq
        with sp ch less.prems(2) show ?thesis by simp
      next
        case lt
        with sp obtain lo1 mid1 hi1 where
          s1: "Store_split st cmp (left nd) s = Inr (lo1, mid1, hi1)" and
          rb: "rebuild st (item nd) hi1 (right nd) = Inr hi" and e: "lo = lo1" "mid = mid1"
          by (auto split: sum.splits)
        from less.hyps [OF _ s1] sz ch have "counts_ok lo1 \<and> counts_ok mid1 \<and> counts_ok hi1"
          by simp
        with rebuild_counts_ok [OF rb] ch e show ?thesis by simp
      next
        case gt
        with sp obtain lo1 mid1 hi1 where
          s1: "Store_split st cmp (right nd) s = Inr (lo1, mid1, hi1)" and
          rb: "rebuild st (item nd) (left nd) lo1 = Inr lo" and e: "hi = hi1" "mid = mid1"
          by (auto split: sum.splits)
        from less.hyps [OF _ s1] sz ch have "counts_ok lo1 \<and> counts_ok mid1 \<and> counts_ok hi1"
          by simp
        with rebuild_counts_ok [OF rb] ch e show ?thesis by simp
      qed
    qed
  qed
qed

lemma Store_union_counts_ok:
  "Store_union st cmp this that = Inr x \<Longrightarrow> counts_ok this \<Longrightarrow> counts_ok that \<Longrightarrow> counts_ok x"
proof (induction "nnodes this + nnodes that" arbitrary: this that x rule: less_induct)
  case less
  show ?case
  proof (cases "readNode st this")
    case (Inl e)
    with less.prems show ?thesis by (subst (asm) Store_union.simps) simp
  next
    case (Inr a)
    show ?thesis
    proof (cases a)
      case None
      with Inr less.prems show ?thesis by (subst (asm) Store_union.simps) simp
    next
      case (Some thisNode)
      note rd1 = Inr [unfolded Some]
      show ?thesis
      proof (cases "readNode st that")
        case (Inl e)
        with rd1 less.prems show ?thesis by (subst (asm) Store_union.simps) simp
      next
        case (Inr b)
        show ?thesis
        proof (cases b)
          case None
          with Inr rd1 less.prems show ?thesis by (subst (asm) Store_union.simps) simp
        next
          case (Some thatNode)
          note rd2 = Inr [unfolded Some]
          note ch1 = counts_ok_children [OF rd1 less.prems(2)]
          note ch2 = counts_ok_children [OF rd2 less.prems(3)]
          note n1 = nnodes_content [OF readNode_content [OF rd1]]
          note n2 = nnodes_content [OF readNode_content [OF rd2]]
          from rd1 rd2 less.prems(1) obtain thisItem thisKey thatItem thatKey where
            rk1: "readKey st thisNode = Inr (thisItem, thisKey)" and
            rk2: "readKey st thatNode = Inr (thatItem, thatKey)"
            by (subst (asm) Store_union.simps) (auto split: sum.splits)
          note un = less.prems(1) [unfolded Store_union_node [OF rd1 rd2 rk1 rk2]]
          show ?thesis
          proof (cases "Priority thatItem \<le> Priority thisItem")
            case True
            with un obtain lo mid hi newLeft newRight i where
              sp: "Store_split st cmp that thisKey = Inr (lo, mid, hi)" and
              u1: "Store_union st cmp (left thisNode) lo = Inr newLeft" and
              u2: "Store_union st cmp (right thisNode) hi = Inr newRight" and
              rb: "rebuild st i newLeft newRight = Inr x"
              by (auto split: sum.splits option.splits)
            note ok = Store_split_counts_ok [OF sp less.prems(3)]
            note nn = Store_split_nnodes [OF sp]
            have "counts_ok newLeft"
              by (rule less.hyps [OF _ u1]) (use n1 nn ok ch1 in simp_all)
            moreover have "counts_ok newRight"
              by (rule less.hyps [OF _ u2]) (use n1 nn ok ch1 in simp_all)
            ultimately show ?thesis using rb by (auto intro: rebuild_counts_ok)
          next
            case False
            with un obtain lo mid hi newLeft newRight where
              sp: "Store_split st cmp this thatKey = Inr (lo, mid, hi)" and
              u1: "Store_union st cmp lo (left thatNode) = Inr newLeft" and
              u2: "Store_union st cmp hi (right thatNode) = Inr newRight" and
              rb: "rebuild st (item thatNode) newLeft newRight = Inr x"
              by (auto split: sum.splits option.splits)
            note ok = Store_split_counts_ok [OF sp less.prems(2)]
            note nn = Store_split_nnodes [OF sp]
            have "counts_ok newLeft"
              by (rule less.hyps [OF _ u1]) (use n2 nn ok ch2 in simp_all)
            moreover have "counts_ok newRight"
              by (rule less.hyps [OF _ u2]) (use n2 nn ok ch2 in simp_all)
            ultimately show ?thesis using rb by (auto intro: rebuild_counts_ok)
          qed
        qed
      qed
    qed
  qed
qed

lemma Store_join_counts_ok:
  "Store_join st cmp this that = Inr x \<Longrightarrow> counts_ok this \<Longrightarrow> counts_ok that \<Longrightarrow> counts_ok x"
proof (induction "nnodes this + nnodes that" arbitrary: this that x rule: less_induct)
  case less
  show ?case
  proof (cases "readNode st this")
    case (Inl e)
    with less.prems show ?thesis by (subst (asm) Store_join.simps) simp
  next
    case (Inr a)
    show ?thesis
    proof (cases a)
      case None
      with Inr less.prems show ?thesis by (subst (asm) Store_join.simps) simp
    next
      case (Some thisNode)
      note rd1 = Inr [unfolded Some]
      show ?thesis
      proof (cases "readNode st that")
        case (Inl e)
        with rd1 less.prems show ?thesis by (subst (asm) Store_join.simps) simp
      next
        case (Inr b)
        show ?thesis
        proof (cases b)
          case None
          with Inr rd1 less.prems show ?thesis by (subst (asm) Store_join.simps) simp
        next
          case (Some thatNode)
          note rd2 = Inr [unfolded Some]
          note ch1 = counts_ok_children [OF rd1 less.prems(2)]
          note ch2 = counts_ok_children [OF rd2 less.prems(3)]
          note n1 = nnodes_content [OF readNode_content [OF rd1]]
          note n2 = nnodes_content [OF readNode_content [OF rd2]]
          from rd1 rd2 less.prems(1) obtain thisItem thisKey thatItem thatKey where
            rk1: "readKey st thisNode = Inr (thisItem, thisKey)" and
            rk2: "readKey st thatNode = Inr (thatItem, thatKey)"
            by (subst (asm) Store_join.simps) (auto split: sum.splits)
          from rd1 rd2 rk1 rk2 less.prems(1) have un:
            "(if Priority thatItem \<le> Priority thisItem then
               (case Store_join st cmp (right thisNode) that of
                  Inl err \<Rightarrow> Inl err
                | Inr newRight \<Rightarrow> rebuild st (item thisNode) (left thisNode) newRight)
              else
               (case Store_join st cmp this (left thatNode) of
                  Inl err \<Rightarrow> Inl err
                | Inr newLeft \<Rightarrow> rebuild st (item thatNode) newLeft (right thatNode))) = Inr x"
            by (subst (asm) Store_join.simps) simp
          show ?thesis
          proof (cases "Priority thatItem \<le> Priority thisItem")
            case True
            with un obtain newRight where
              j: "Store_join st cmp (right thisNode) that = Inr newRight" and
              rb: "rebuild st (item thisNode) (left thisNode) newRight = Inr x"
              by (auto split: sum.splits)
            have "counts_ok newRight"
              by (rule less.hyps [OF _ j]) (use n1 ch1 less.prems in simp_all)
            with rb ch1 show ?thesis by (auto intro: rebuild_counts_ok)
          next
            case False
            with un obtain newLeft where
              j: "Store_join st cmp this (left thatNode) = Inr newLeft" and
              rb: "rebuild st (item thatNode) newLeft (right thatNode) = Inr x"
              by (auto split: sum.splits)
            have "counts_ok newLeft"
              by (rule less.hyps [OF _ j]) (use n2 ch2 less.prems in simp_all)
            with rb ch2 show ?thesis by (auto intro: rebuild_counts_ok)
          qed
        qed
      qed
    qed
  qed
qed

lemma counts_ok_newNode: "counts_ok (mkNodeLoc (Some (newNode i)))"
proof -
  have st: "subtree (mkNodeLoc (Some (newNode i))) = Some (newNode i)"
    by (simp add: subtree_def mkNodeLoc_def nodeLoc_isEmpty_def nodeLoc_Node_def)
  have e: "subtree empty_nodeLoc = None"
    by (simp add: subtree_def empty_nodeLoc_def nodeLoc_isEmpty_def nodeLoc_Node_def ploc_isEmpty_def)
  show ?thesis
    by (simp add: counts_ok_node [OF st])
       (simp add: newNode_def subNodes_def subBytes_def e itemBytes_def NumValBytes_def)
qed

lemma heap_counts_ok_map: "heap_counts_ok t \<longleftrightarrow> list_all counts_ok (map rnl_root (heap t))"
  by (simp add: heap_counts_ok_def list_all_iff)

lemma roots_eq:
  "length (heap t') = length (heap t) \<Longrightarrow> \<forall>q. same_but_refs (heap t' ! q) (heap t ! q) \<Longrightarrow>
     map rnl_root (heap t') = map rnl_root (heap t)"
  by (rule nth_equalityI) (simp_all add: same_but_refs_def)

lemma rootAddRef_roots:
  "rootAddRef t = Inr (rnl, t1) \<Longrightarrow>
     map rnl_root (heap t1) = map rnl_root (heap t) \<and> store t1 = store t \<and> compare t1 = compare t \<and>
     rnl < length (heap t)"
  by (frule rootAddRef_frame) (simp add: roots_eq)

lemma rootDecRef_roots:
  "rootDecRef r t = Inr (u, t') \<Longrightarrow>
     map rnl_root (heap t') = map rnl_root (heap t) \<and> store t' = store t \<and> compare t' = compare t"
  by (frule rootDecRef_frame) (simp add: roots_eq)

lemma deferred_rootDecRef_roots:
  "deferred_rootDecRef r res t = Inr (x, t') \<Longrightarrow>
     map rnl_root (heap t') = map rnl_root (heap t) \<and> store t' = store t \<and> compare t' = compare t"
  by (frule deferred_rootDecRef_frame) (simp add: roots_eq)

lemma rootCAS_roots:
  "rootCAS prev nxt t = Inr (b, t') \<Longrightarrow>
     map rnl_root (heap t') = map rnl_root (heap t) \<and> store t' = store t \<and> compare t' = compare t"
  by (auto simp: rootCAS_def Let_def nth_list_update split: if_splits option.splits
           intro!: nth_equalityI)

lemma GetItem_roots:
  "GetItem key wv t = Inr (g, t') \<Longrightarrow>
     map rnl_root (heap t') = map rnl_root (heap t) \<and> store t' = store t \<and> compare t' = compare t"
  by (auto simp: GetItem_def split: sum.splits dest!: rootAddRef_roots deferred_rootDecRef_roots)

lemma heap_counts_ok_nth: "heap_counts_ok t \<Longrightarrow> q < length (heap t) \<Longrightarrow> counts_ok (rnl_root (heap t ! q))"
  by (simp add: heap_counts_ok_def list_all_length)

lemma SetItem_counts_ok:
  assumes "store t = treapStore rdF sto wrF flF jsn" and "heap_counts_ok t"
    and "SetItem (\<lambda>t. t) i t = Inr (e, t')"
  shows "heap_counts_ok t'"
proof (cases "Key i = None \<or> len (Key i) > 0xffff \<or> len (Key i) = 0 \<or> Val i = None \<or> Priority i < 0")
  case True
  with assms show ?thesis by (auto simp: SetItem_def split: if_splits)
next
  case False
  then have v: "\<not> (Key i = None \<or> len (Key i) > 0xffff \<or> len (Key i) = 0 \<or> Val i = None)"
    "\<not> Priority i < 0" by auto
  from assms(3) v obtain rnl t1 where ar: "rootAddRef t = Inr (rnl, t1)"
    by (auto simp: SetItem_def split: sum.splits)
  note r1 = rootAddRef_roots [OF ar]
  have R: "rnl_root (heap t1 ! rnl) = rnl_root (heap t ! rnl)"
    using rootAddRef_frame [OF ar] by (simp add: same_but_refs_def)
  have okR: "counts_ok (rnl_root (heap t ! rnl))"
    using heap_counts_ok_nth [OF assms(2)] r1 by simp
  have nloc: "Node (ItemLoc (iloc (item (mkNode None None None 1
       (of_nat (len (Key i)) + NumValBytes i)))) True (Some i))
       (left (mkNode None None None 1 (of_nat (len (Key i)) + NumValBytes i)))
       (right (mkNode None None None 1 (of_nat (len (Key i)) + NumValBytes i)))
       (numNodes (mkNode None None None 1 (of_nat (len (Key i)) + NumValBytes i)))
       (numBytes (mkNode None None None 1 (of_nat (len (Key i)) + NumValBytes i))) = newNode i"
    by (simp add: newNode_def mkNode_def empty_itemLoc_def)
  let ?st0 = "\<lparr>readFails = rdF, stored = sto,
                 st_union = (\<lambda>cmp a b. Inl IOError), st_split = (\<lambda>cmp a k. Inl IOError),
                 st_join = (\<lambda>cmp a b. Inl IOError),
                 itemWriteFails = wrF, flushNodesFails = flF, jsonUnmarshal = jsn\<rparr>"
  have un: "st_union (store t1) = Store_union ?st0"
    using r1 assms(1) by (simp add: treapStore_def Let_def)
  note unf = assms(3) [unfolded SetItem_def Let_def nloc]
  show ?thesis
  proof (cases "Store_union ?st0 (compare t1) (rnl_root (heap t ! rnl)) (mkNodeLoc (Some (newNode i)))")
    case (Inl err)
    with unf v ar R un have "deferred_rootDecRef rnl (Some (StoreError err)) t1 = Inr (e, t')"
      by simp
    from deferred_rootDecRef_roots [OF this] r1 assms(2) show ?thesis
      by (simp add: heap_counts_ok_map)
  next
    case (Inr r)
    from Store_union_counts_ok [OF Inr okR counts_ok_newNode] have okr: "counts_ok r" .
    define t4 where "t4 = t1\<lparr>heap := heap t1 @ [\<lparr>refs = 1, rnl_root = r, chainedCollection = None,
                             chainedRootNodeLoc = None, reclaimLater = (Some (newNode i), None)\<rparr>]\<rparr>"
    have ok4: "heap_counts_ok t4"
      using r1 assms(2) okr by (simp add: heap_counts_ok_map t4_def)
    from unf v ar R un Inr have body:
    "(case rootCAS (Some rnl) (Some (length (heap t1))) t4 of
        Inl p \<Rightarrow> Inl p
      | Inr (False, t5) \<Rightarrow> deferred_rootDecRef rnl (Some ConcurrentMutation) t5
      | Inr (True, t5) \<Rightarrow>
          (case rootDecRef rnl t5 of
             Inl p \<Rightarrow> Inl p
           | Inr (u, t6) \<Rightarrow>
               deferred_rootDecRef rnl None (emit (FreeNodeLoc (self t6) (mkNodeLoc (Some (newNode i)))) t6)))
      = Inr (e, t')"
      by (simp add: mkRootNodeLoc_def t4_def)
    then have "map rnl_root (heap t') = map rnl_root (heap t4)"
      by (auto split: sum.splits prod.splits bool.splits
               dest!: rootCAS_roots rootDecRef_roots deferred_rootDecRef_roots)
    with ok4 show ?thesis by (simp add: heap_counts_ok_map)
  qed
qed


lemma Delete_counts_ok:
  assumes "store t = treapStore rdF sto wrF flF jsn" and "heap_counts_ok t"
    and "Delete (\<lambda>t. t) key t = Inr (res, t')"
  shows "heap_counts_ok t'"
proof -
  from assms(3) obtain rnl t1 where ar: "rootAddRef t = Inr (rnl, t1)"
    by (auto simp: Delete_def split: sum.splits)
  note r1 = rootAddRef_roots [OF ar]
  have R: "rnl_root (heap t1 ! rnl) = rnl_root (heap t ! rnl)"
    using rootAddRef_frame [OF ar] by (simp add: same_but_refs_def)
  have okR: "counts_ok (rnl_root (heap t ! rnl))"
    using heap_counts_ok_nth [OF assms(2)] r1 by simp
  from assms(3) ar obtain g t3 where gi: "GetItem key False t1 = Inr (g, t3)"
    by (auto simp: Delete_def Let_def split: sum.splits)
  note r3 = GetItem_roots [OF gi]
  let ?st0 = "\<lparr>readFails = rdF, stored = sto,
                 st_union = (\<lambda>cmp a b. Inl IOError), st_split = (\<lambda>cmp a k. Inl IOError),
                 st_join = (\<lambda>cmp a b. Inl IOError),
                 itemWriteFails = wrF, flushNodesFails = flF, jsonUnmarshal = jsn\<rparr>"
  have st: "st_split (store t3) = Store_split ?st0" "st_join (store t3) = Store_join ?st0"
    using r1 r3 assms(1) by (simp_all add: treapStore_def Let_def)
  have ok3: "heap_counts_ok t3" using r1 r3 assms(2) by (simp add: heap_counts_ok_map)
  note unf = assms(3) [unfolded Delete_def Let_def]
  have same: "deferred_rootDecRef rnl x (t3\<lparr>trace := tr\<rparr>) = Inr (res, t') \<Longrightarrow> heap_counts_ok t'"
    for x :: "bool \<times> error option" and tr
    using ok3 by (auto simp: heap_counts_ok_map dest!: deferred_rootDecRef_roots)
  have same3: "deferred_rootDecRef rnl x t3 = Inr (res, t') \<Longrightarrow> heap_counts_ok t'"
    for x :: "bool \<times> error option"
    using same [of x "trace t3"] by simp
  show ?thesis
  proof (cases g)
    case (Inl err)
    with unf ar gi show ?thesis by (auto intro: same3)
  next
    case (Inr io)
    show ?thesis
    proof (cases io)
      case None
      with Inr unf ar gi show ?thesis by (auto intro: same3)
    next
      case (Some it)
      show ?thesis
      proof (cases "Store_split ?st0 (compare t3) (rnl_root (heap t ! rnl)) key")
        case (Inl err)
        with Inr Some unf ar gi R st show ?thesis by (auto intro: same3)
      next
        case sp: (Inr x)
        obtain l m r where x: "x = (l, m, r)" by (cases x)
        note ok = Store_split_counts_ok [OF sp [unfolded x] okR]
        show ?thesis
        proof (cases "nodeLoc_isEmpty m")
          case True
          with sp x Inr Some unf ar gi R st show ?thesis by (auto intro: same3)
        next
          case False
          show ?thesis
          proof (cases "Store_join ?st0 (compare t3) l r")
            case (Inl err)
            with False sp x Inr Some unf ar gi R st have
              "deferred_rootDecRef rnl (False, Some (StoreError err))
                 (t3\<lparr>trace := trace t3 @ [MarkReclaimable (self t3) (nodeLoc_Node m),
                                           FreeNodeLoc (self t3) m]\<rparr>) = Inr (res, t')"
              by (simp add: emit_def)
            then show ?thesis by (rule same)
          next
            case jn: (Inr j)
            from Store_join_counts_ok [OF jn] ok have okj: "counts_ok j" by simp
            define t7 where "t7 = t3\<lparr>trace := trace t3 @ [MarkReclaimable (self t3) (nodeLoc_Node m),
                                           FreeNodeLoc (self t3) m],
               heap := heap t3 @ [\<lparr>refs = 1, rnl_root = j, chainedCollection = None,
                   chainedRootNodeLoc = None,
                   reclaimLater = (if \<not> nodeLoc_isEmpty l then nodeLoc_Node l else None,
                                   if \<not> nodeLoc_isEmpty r then nodeLoc_Node r else None)\<rparr>]\<rparr>"
            have ok7: "heap_counts_ok t7"
              using ok3 okj by (simp add: heap_counts_ok_map t7_def)
            from False sp x Inr Some unf ar gi R st jn have body:
              "(case rootCAS (Some rnl) (Some (length (heap t3))) t7 of
                  Inl p \<Rightarrow> Inl p
                | Inr (False, t8) \<Rightarrow> deferred_rootDecRef rnl (False, Some ConcurrentMutation) t8
                | Inr (True, t8) \<Rightarrow>
                    (case rootDecRef rnl t8 of
                       Inl p \<Rightarrow> Inl p
                     | Inr (u, t9) \<Rightarrow>
                         deferred_rootDecRef rnl (True, None)
                           (emit (FreeNodeLoc (self t9) r) (emit (FreeNodeLoc (self t9) l) t9))))
               = Inr (res, t')"
              by (simp add: mkRootNodeLoc_def emit_def t7_def cong: if_cong)
            then have "map rnl_root (heap t') = map rnl_root (heap t7)"
              by (auto split: sum.splits prod.splits bool.splits
                       dest!: rootCAS_roots rootDecRef_roots deferred_rootDecRef_roots)
            with ok7 show ?thesis by (simp add: heap_counts_ok_map)
          qed
        qed
      qed
    qed
  qed
qed

section \<open>The properties\<close>

text \<open>
  C1. \<open>rootCAS\<close> fails, changing nothing, whenever the current root is not the witness
  \<open>prev\<close>, and only then; when it succeeds \<open>next\<close> is the root. If the displaced \<open>prev\<close>
  has more than two references at the swap and no chain yet, \<open>prev\<close> is chained to the
  collection and to \<open>next\<close> and the counter of \<open>next\<close> goes up by one (as an \<open>int64\<close>),
  every other cell staying as it was; if \<open>prev\<close> has more than two references and one of
  its chain fields is already set, \<open>rootCAS\<close> panics; with at most two references (or no
  \<open>prev\<close>) only the root changes.
\<close>

theorem rootCAS_protocol:
  "(root t \<noteq> prev \<longrightarrow> rootCAS prev next t = Inr (False, t)) \<and>
   (rootCAS prev next t = Inr (ok, t') \<longrightarrow>
      (ok \<longleftrightarrow> root t = prev) \<and> root t' = (if ok then next else root t)) \<and>
   (root t = Some p \<and> prev = Some p \<and> p < length (heap t) \<and> next = Some n \<and> n < length (heap t) \<and>
    2 < sint (refs (heap t ! p)) \<and>
    chainedCollection (heap t ! p) = None \<and> chainedRootNodeLoc (heap t ! p) = None \<longrightarrow>
      (\<exists>t2. rootCAS prev next t = Inr (True, t2) \<and> root t2 = Some n \<and>
         length (heap t2) = length (heap t) \<and>
         chainedCollection (heap t2 ! p) = Some (self t) \<and>
         chainedRootNodeLoc (heap t2 ! p) = Some n \<and>
         refs (heap t2 ! n) = refs (heap t ! n) + 1 \<and>
         (\<forall>q. q \<noteq> p \<and> q \<noteq> n \<longrightarrow> heap t2 ! q = heap t ! q))) \<and>
   (root t = Some p \<and> prev = Some p \<and> p < length (heap t) \<and> 2 < sint (refs (heap t ! p)) \<and>
    (chainedCollection (heap t ! p) \<noteq> None \<or> chainedRootNodeLoc (heap t ! p) \<noteq> None) \<longrightarrow>
      rootCAS prev next t = Inl (ChainAlreadyTaken (name t))) \<and>
   (root t = prev \<and> (prev = None \<or> (\<exists>q. prev = Some q \<and> q < length (heap t) \<and> \<not> 2 < sint (refs (heap t ! q)))) \<longrightarrow>
      rootCAS prev next t = Inr (True, t\<lparr>root := next\<rparr>))"
  apply (intro conjI impI)
  subgoal by (simp add: rootCAS_def)
  subgoal by (auto simp: rootCAS_def Let_def split: if_splits option.splits)
  subgoal by (auto simp: rootCAS_def Let_def split: if_splits option.splits)
  subgoal by (auto simp: rootCAS_def Let_def nth_list_update)
  subgoal by (auto simp: rootCAS_def Let_def)
  subgoal by (auto simp: rootCAS_def Let_def)
  done

theorem rootCAS_protocol_witness:
  "rootCAS (Some 1) (Some 1) (exCollection [exRoot 3 empty_nodeLoc, exRoot 1 empty_nodeLoc])
     = Inr (False, exCollection [exRoot 3 empty_nodeLoc, exRoot 1 empty_nodeLoc]) \<and>
   (\<exists>t2. rootCAS (Some 0) (Some 1) (exCollection [exRoot 3 empty_nodeLoc, exRoot 1 empty_nodeLoc])
            = Inr (True, t2) \<and> root t2 = Some 1 \<and>
          chainedCollection (heap t2 ! 0) = Some 1 \<and> chainedRootNodeLoc (heap t2 ! 0) = Some 1 \<and>
          refs (heap t2 ! 1) = 2) \<and>
   rootCAS (Some 0) (Some 1)
      (exCollection [(exRoot 3 empty_nodeLoc)\<lparr>chainedRootNodeLoc := Some 1\<rparr>, exRoot 1 empty_nodeLoc])
     = Inl (ChainAlreadyTaken ''c'') \<and>
   rootCAS (Some 0) (Some 1) (exCollection [exRoot 2 empty_nodeLoc, exRoot 1 empty_nodeLoc])
     = Inr (True, (exCollection [exRoot 2 empty_nodeLoc, exRoot 1 empty_nodeLoc])\<lparr>root := Some 1\<rparr>)"
  using rootCAS_protocol [of "exCollection [exRoot 3 empty_nodeLoc, exRoot 1 empty_nodeLoc]"
      "Some 1" "Some 1" False "exCollection [exRoot 3 empty_nodeLoc, exRoot 1 empty_nodeLoc]" 0 1]
    rootCAS_protocol [of "exCollection [exRoot 3 empty_nodeLoc, exRoot 1 empty_nodeLoc]"
      "Some 0" "Some 1" True _ 0 1]
    rootCAS_protocol [of "exCollection [(exRoot 3 empty_nodeLoc)\<lparr>chainedRootNodeLoc := Some 1\<rparr>, exRoot 1 empty_nodeLoc]"
      "Some 0" "Some 1" True _ 0 1]
    rootCAS_protocol [of "exCollection [exRoot 2 empty_nodeLoc, exRoot 1 empty_nodeLoc]"
      "Some 0" "Some 1" True _ 0 1]
  by (simp add: exCollection_def exRoot_def rootCAS_def Let_def)



text \<open>
  C3. With the treap operations of the specification, a comparison that is zero on equal
  keys and antisymmetric, and chain pointers into the heap: when \<open>Set\<close> of a key and a
  value, run alone, returns no error, \<open>Get\<close> of that key on the resulting collection
  returns that value.
\<close>

theorem Get_after_Set:
  assumes "store t = treapStore rdF sto wrF flF jsn"
    and "KeyCompare_ok (compare t)"
    and "wf_heap t"
    and "Set (\<lambda>t. t) prio (Some k) (Some v) t = Inr (None, t')"
  shows "\<exists>t''. Get k t' = Inr (Inr (Some v), t'')"
proof -
  let ?i = "\<lparr>Key = Some k, Val = Some v, Priority = prio\<rparr>"
  let ?il = "ItemLoc None True (Some ?i)"
  let ?st0 = "\<lparr>readFails = rdF, stored = sto,
                 st_union = (\<lambda>cmp a b. Inl IOError), st_split = (\<lambda>cmp a k. Inl IOError),
                 st_join = (\<lambda>cmp a b. Inl IOError),
                 itemWriteFails = wrF, flushNodesFails = flF, jsonUnmarshal = jsn\<rparr>"
  from assms(4) have "SetItem (\<lambda>t. t) ?i t = Inr (None, t')" by (simp add: Set_def)
  from SetItem_success [OF this] obtain rnl t1 r where
    ar: "rootAddRef t = Inr (rnl, t1)" and
    un: "st_union (store t1) (compare t1) (rnl_root (heap t ! rnl)) (mkNodeLoc (Some (newNode ?i))) = Inr r" and
    s: "root t' = Some (length (heap t1))" "length (heap t') = Suc (length (heap t1))"
       "rnl_root (heap t' ! length (heap t1)) = r"
       "store t' = store t1" "compare t' = compare t1" "wf_heap t1 \<longrightarrow> wf_heap t'"
    by blast
  note fr = rootAddRef_frame [OF ar]
  have "wf_heap t1" by (rule wf_heap_frame [OF assms(3)]) (use fr in simp_all)
  with s have wf': "wf_heap t'" by simp
  from fr assms(1) un have un': "Store_union ?st0 (compare t) (rnl_root (heap t ! rnl))
      (mkNodeLoc (Some (newNode ?i))) = Inr r"
    by (simp add: treapStore_def Let_def)
  have rd: "itemLoc_read ?st0 ?il False = Inr (Some ?i)" "itemLoc_read ?st0 ?il True = Inr (Some ?i)"
    "Key ?i = Some k"
    by (simp_all add: itemLoc_read_def itemLoc_Item_def)
  from union_single_lookup [OF assms(2) rd single_newNode un']
  have "GetItem_loop ?st0 (compare t) k True r = Inr (Some ?i)" .
  moreover have "readFails (store t') = readFails ?st0"
    using s fr assms(1) by (simp add: treapStore_def Let_def)
  ultimately have look: "GetItem_loop (store t') (compare t') k True r = Inr (Some ?i)"
    using GetItem_loop_store_cong [of "store t'" ?st0] s fr by simp
  from s obtain t1' where ar': "rootAddRef t' = Inr (length (heap t1), t1')"
    by (auto simp: rootAddRef_def)
  note fr' = rootAddRef_frame [OF ar']
  have wf1: "wf_heap t1'" by (rule wf_heap_frame [OF wf']) (use fr' in simp_all)
  from fr' s have r': "rnl_root (heap t1' ! length (heap t1)) = r" by (simp add: same_but_refs_def)
  have "length (heap t1) < length (heap t1')" using fr' s by simp
  from deferred_rootDecRef_returns [OF wf1 this,
      where res = "Inr (Some ?i) :: error + Item option"]
  obtain t'' where dd: "deferred_rootDecRef (length (heap t1))
      (Inr (Some ?i) :: error + Item option) t1' = Inr (Inr (Some ?i), t'')"
    by blast
  have st1: "store t1' = store t'" "compare t1' = compare t'" using fr' by simp_all
  have "GetItem k True t' = deferred_rootDecRef (length (heap t1))
      (GetItem_loop (store t1') (compare t1') k True (rnl_root (heap t1' ! length (heap t1)))) t1'"
    using ar' by (simp add: GetItem_def)
  also have "\<dots> = Inr (Inr (Some ?i), t'')"
    by (simp only: st1 r' look dd)
  finally have "GetItem k True t' = Inr (Inr (Some ?i), t'')" .
  then have "Get k t' = Inr (Inr (Some v), t'')" by (simp add: Get_def)
  then show ?thesis ..
qed

theorem Get_after_Set_witness:
  "(\<exists>t' t''. Set id 3 (Some [97]) (Some [57]) (exCollection [exRoot 1 exTree]) = Inr (None, t') \<and>
       Get [97] t' = Inr (Inr (Some [57]), t'')) \<and>
   (\<exists>t' t''. Set id 9 (Some [99]) (Some []) (exCollection [exRoot 1 exTree]) = Inr (None, t') \<and>
       Get [99] t' = Inr (Inr (Some []), t'')) \<and>
   KeyCompare_ok bytesCompare \<and> wf_heap (exCollection [exRoot 1 exTree])"
proof -
  let ?T = "exCollection [exRoot 1 exTree]"
  have st: "store ?T = treapStore (\<lambda>p. False) (\<lambda>p. None) (\<lambda>i. False) (\<lambda>n. False) (\<lambda>d. Some (Ploc 8 16))"
    by (simp add: exCollection_def exStore_def)
  have kc: "KeyCompare_ok (compare ?T)" by (simp add: exCollection_def bytesCompare_ok)
  have wf: "wf_heap ?T" by (simp add: ex_defs run_defs)
  have s1: "Set (\<lambda>t. t) 3 (Some [97]) (Some [57]) ?T
      = Inr (None, snd (projr (Set (\<lambda>t. t) 3 (Some [97]) (Some [57]) ?T)))"
    by (simp add: ex_defs run_defs)
  have s2: "Set (\<lambda>t. t) 9 (Some [99]) (Some []) ?T
      = Inr (None, snd (projr (Set (\<lambda>t. t) 9 (Some [99]) (Some []) ?T)))"
    by (simp add: ex_defs run_defs)
  have idl: "id = (\<lambda>t :: Collection. t)" by (simp add: id_def)
  from Get_after_Set [OF st kc wf s1] Get_after_Set [OF st kc wf s2] s1 s2 kc wf
  show ?thesis unfolding idl by (auto simp: exCollection_def)
qed

text \<open>
  C4. When \<open>SetItem\<close> or \<open>Delete\<close> returns an error, it has not written the root: either
  the item was refused and nothing changed at all, or the root is the one the other
  goroutines \<open>env\<close> left after the call took its reference (a swap that lost against them
  installs nothing); when the call runs alone the root is the one from before the call.
  An error of \<open>Delete\<close> comes with \<open>wasDeleted\<close> false.
\<close>

theorem failed_mutation_keeps_root:
  "(SetItem env i t = Inr (Some e, t') \<longrightarrow>
      (invalidItem i \<and> t' = t) \<or>
      (\<exists>rnl t1. rootAddRef t = Inr (rnl, t1) \<and> root t' = root (env t1))) \<and>
   (SetItem (\<lambda>t. t) i t = Inr (Some e, t') \<longrightarrow> root t' = root t) \<and>
   (Delete env key t = Inr ((b, Some e), t') \<longrightarrow>
      \<not> b \<and> (\<exists>rnl t1. rootAddRef t = Inr (rnl, t1) \<and> root t' = root (env t1))) \<and>
   (Delete (\<lambda>t. t) key t = Inr ((b, Some e), t') \<longrightarrow> root t' = root t)"
proof -
  have set_env: "SetItem env i t = Inr (Some e, t') \<longrightarrow>
      (invalidItem i \<and> t' = t) \<or>
      (\<exists>rnl t1. rootAddRef t = Inr (rnl, t1) \<and> root t' = root (env t1))"
    using SetItem_error_root by blast
  have set_alone: "SetItem (\<lambda>t. t) i t = Inr (Some e, t') \<longrightarrow> root t' = root t"
    using SetItem_error_root [of "\<lambda>t. t" i t e t'] by (auto dest!: rootAddRef_root)
  have del_env: "Delete env key t = Inr ((b, Some e), t') \<longrightarrow>
      \<not> b \<and> (\<exists>rnl t1. rootAddRef t = Inr (rnl, t1) \<and> root t' = root (env t1))"
    using Delete_error_root by blast
  have del_alone: "Delete (\<lambda>t. t) key t = Inr ((b, Some e), t') \<longrightarrow> root t' = root t"
    using Delete_error_root [of "\<lambda>t. t" key t b e t'] by (auto dest!: rootAddRef_root)
  from set_env set_alone del_env del_alone show ?thesis by (intro conjI)
qed

theorem failed_mutation_keeps_root_witness:
  "(\<exists>t'. SetItem (\<lambda>t. t) (exItem [] [49] 0) (exCollection [exRoot 1 exTree])
            = Inr (Some KeyValMissingOrTooLong, t') \<and> root t' = Some 0) \<and>
   (\<exists>t'. SetItem (\<lambda>t. t) (exItem [97] [49] 7)
              ((exCollection [exRoot 1 exPersisted])\<lparr>store := exFailingStore\<rparr>)
            = Inr (Some (StoreError IOError), t') \<and> root t' = Some 0) \<and>
   (\<exists>t'. SetItem (exOther 1) (exItem [97] [49] 7)
              (exCollection [exRoot 1 empty_nodeLoc, exRoot 1 empty_nodeLoc])
            = Inr (Some ConcurrentMutation, t') \<and> root t' = Some 1 \<and> length (heap t') = 3) \<and>
   (\<exists>t'. Delete (exOther 1) [97] (exCollection [exRoot 1 empty_nodeLoc, exRoot 1 exTree])
            = Inr ((False, Some (ConcurrentDelete [97])), t') \<and> root t' = Some 1) \<and>
   (\<exists>t'. Delete (\<lambda>t. t) [97] ((exCollection [exRoot 1 exPersisted])\<lparr>store := exFailingStore\<rparr>)
            = Inr ((False, Some (StoreError IOError)), t') \<and> root t' = Some 0)"
  using failed_mutation_keeps_root [of "\<lambda>t. t" "exItem [] [49] 0" "exCollection [exRoot 1 exTree]"
          KeyValMissingOrTooLong "exCollection [exRoot 1 exTree]"]
    failed_mutation_keeps_root [of "exOther 1" "exItem [97] [49] 7"
          "exCollection [exRoot 1 empty_nodeLoc, exRoot 1 empty_nodeLoc]" ConcurrentMutation
          "snd (projr (SetItem (exOther 1) (exItem [97] [49] 7)
              (exCollection [exRoot 1 empty_nodeLoc, exRoot 1 empty_nodeLoc])))"]
  by (simp add: invalidItem_def ex_defs run_defs)



text \<open>
  C6. \<open>SetItem\<close> returns one of its two validation errors, with the collection exactly as
  it was, when the key is \<open>nil\<close>, empty or longer than 65535 bytes, the value is \<open>nil\<close> or
  the priority is negative; it returns one of them only then; a key of exactly 65535 bytes
  with a value and a priority that is not negative is not refused.
\<close>

theorem SetItem_validation:
  "(invalidItem i \<longrightarrow>
      SetItem env i t =
        Inr (Some (if Key i = None \<or> len (Key i) = 0 \<or> 65535 < len (Key i) \<or> Val i = None
                   then KeyValMissingOrTooLong else PriorityNegative), t)) \<and>
   (SetItem env i t = Inr (Some e, t') \<and> (e = KeyValMissingOrTooLong \<or> e = PriorityNegative)
      \<longrightarrow> invalidItem i \<and> t' = t) \<and>
   (len (Key i) = 65535 \<and> Val i \<noteq> None \<and> 0 \<le> Priority i \<longrightarrow> \<not> invalidItem i)"
proof (intro conjI impI)
  assume "invalidItem i"
  then show "SetItem env i t =
        Inr (Some (if Key i = None \<or> len (Key i) = 0 \<or> 65535 < len (Key i) \<or> Val i = None
                   then KeyValMissingOrTooLong else PriorityNegative), t)"
    by (auto simp: SetItem_def invalidItem_def)
next
  assume a: "SetItem env i t = Inr (Some e, t') \<and> (e = KeyValMissingOrTooLong \<or> e = PriorityNegative)"
  show "invalidItem i"
  proof (rule ccontr)
    assume "\<not> invalidItem i"
    with a show False
      by (auto simp: SetItem_def invalidItem_def Let_def
               split: sum.splits prod.splits bool.splits dest!: deferred_rootDecRef_res)
  qed
  with a show "t' = t" by (auto simp: SetItem_def invalidItem_def split: if_splits)
next
  assume a: "len (Key i) = 65535 \<and> Val i \<noteq> None \<and> 0 \<le> Priority i"
  then have v: "\<not> invalidItem i" by (auto simp: invalidItem_def len_def split: option.splits)
  then show "\<not> invalidItem i" .
qed

theorem SetItem_validation_witness:
  "SetItem (\<lambda>t. t) \<lparr>Key = None, Val = Some [49], Priority = 0\<rparr> (exCollection [exRoot 1 empty_nodeLoc])
     = Inr (Some KeyValMissingOrTooLong, exCollection [exRoot 1 empty_nodeLoc]) \<and>
   SetItem (\<lambda>t. t) (exItem [] [49] 0) (exCollection [exRoot 1 empty_nodeLoc])
     = Inr (Some KeyValMissingOrTooLong, exCollection [exRoot 1 empty_nodeLoc]) \<and>
   SetItem (\<lambda>t. t) (exItem (replicate 65536 0) [49] 0) (exCollection [exRoot 1 empty_nodeLoc])
     = Inr (Some KeyValMissingOrTooLong, exCollection [exRoot 1 empty_nodeLoc]) \<and>
   SetItem (\<lambda>t. t) \<lparr>Key = Some [97], Val = None, Priority = 0\<rparr> (exCollection [exRoot 1 empty_nodeLoc])
     = Inr (Some KeyValMissingOrTooLong, exCollection [exRoot 1 empty_nodeLoc]) \<and>
   SetItem (\<lambda>t. t) (exItem [97] [49] (- 1)) (exCollection [exRoot 1 empty_nodeLoc])
     = Inr (Some PriorityNegative, exCollection [exRoot 1 empty_nodeLoc]) \<and>
   invalidItem (exItem [97] [49] (- 1)) \<and>
   \<not> invalidItem (exItem (replicate 65535 0) [] 0) \<and>
   (\<exists>t'. SetItem (\<lambda>t. t) (exItem (replicate 65535 0) [] 0) (exCollection [exRoot 1 empty_nodeLoc])
            = Inr (None, t'))"
  using SetItem_validation [of "\<lparr>Key = None, Val = Some [49], Priority = 0\<rparr>" "\<lambda>t. t"
          "exCollection [exRoot 1 empty_nodeLoc]"]
    SetItem_validation [of "exItem [] [49] 0" "\<lambda>t. t" "exCollection [exRoot 1 empty_nodeLoc]"]
    SetItem_validation [of "exItem (replicate 65536 0) [49] 0" "\<lambda>t. t" "exCollection [exRoot 1 empty_nodeLoc]"]
    SetItem_validation [of "\<lparr>Key = Some [97], Val = None, Priority = 0\<rparr>" "\<lambda>t. t"
          "exCollection [exRoot 1 empty_nodeLoc]"]
    SetItem_validation [of "exItem [97] [49] (- 1)" "\<lambda>t. t" "exCollection [exRoot 1 empty_nodeLoc]"
          PriorityNegative "exCollection [exRoot 1 empty_nodeLoc]"]
    SetItem_validation [of "exItem (replicate 65535 0) [] 0" "\<lambda>t. t" "exCollection [exRoot 1 empty_nodeLoc]"]
  by (simp add: invalidItem_def ex_defs run_defs)




text \<open>
  C8. \<open>Write\<close> on the tree of the current root: the item writes it makes are, in order, a
  prefix of the items of the nodes with no location yet, taken left subtree, node, right
  subtree (a subsequence of the items in key order; subtrees with a location are skipped);
  the store is asked to write the nodes only when that list has been written to its end,
  and then last; nothing else happens but the deferred release of the reference (no root
  record is written). If no item write fails and the store writes the nodes, there is no
  error.
\<close>

theorem Write_order:
  assumes "rootAddRef t = Inr (rnl, t1)"
  shows "\<exists>res ws.
     Write t = deferred_rootDecRef rnl res
       (t1\<lparr>trace := trace t @ map (ItemWrite (self t)) ws @
              (if res = None then [FlushNodes (self t) (rnl_root (heap t ! rnl))] else [])\<rparr>) \<and>
     prefix ws (dirtyItems (rnl_root (heap t ! rnl))) \<and>
     (res = None \<longrightarrow> ws = dirtyItems (rnl_root (heap t ! rnl))) \<and>
     ((\<forall>i \<in> set (dirtyItems (rnl_root (heap t ! rnl))). \<not> itemWriteFails (store t) i) \<and>
      \<not> flushNodesFails (store t) (rnl_root (heap t ! rnl)) \<longrightarrow> res = None) \<and>
     subseq (dirtyItems (rnl_root (heap t ! rnl))) (inorder (rnl_root (heap t ! rnl)))"
proof -
  let ?R = "rnl_root (heap t ! rnl)"
  note fr = rootAddRef_frame [OF assms]
  from fr have R: "rnl_root (heap t1 ! rnl) = ?R" by (simp add: same_but_refs_def)
  obtain r2 t2 where fl: "flushItems ?R t1 = (r2, t2)" by (cases "flushItems ?R t1")
  from flushItems_trace [OF fl] fr obtain ws where
    w: "t2 = t1\<lparr>trace := trace t @ map (ItemWrite (self t)) ws\<rparr>" "prefix ws (dirtyItems ?R)"
      "r2 = None \<longrightarrow> ws = dirtyItems ?R"
      "(\<forall>i \<in> set (dirtyItems ?R). \<not> itemWriteFails (store t) i) \<longrightarrow> r2 = None"
    by auto
  show ?thesis
  proof (cases r2)
    case (Some e)
    with assms fl R w have "Write t = deferred_rootDecRef rnl (Some e)
       (t1\<lparr>trace := trace t @ map (ItemWrite (self t)) ws @
              (if Some e = None then [FlushNodes (self t) ?R] else [])\<rparr>)"
      by (simp add: Write_def Let_def)
    with w Some dirtyItems_subseq [of ?R] show ?thesis
      by (intro exI [of _ "Some e"] exI [of _ ws]) simp
  next
    case None
    show ?thesis
    proof (cases "flushNodesFails (store t) ?R")
      case True
      with assms fl R w None fr have "Write t = deferred_rootDecRef rnl (Some (StoreError IOError))
       (t1\<lparr>trace := trace t @ map (ItemWrite (self t)) ws @
              (if Some (StoreError IOError) = None then [FlushNodes (self t) ?R] else [])\<rparr>)"
        by (simp add: Write_def Let_def)
      with w True dirtyItems_subseq [of ?R] show ?thesis
        by (intro exI [of _ "Some (StoreError IOError)"] exI [of _ ws]) simp
    next
      case False
      with assms fl R w None fr have "Write t = deferred_rootDecRef rnl None
       (t1\<lparr>trace := trace t @ map (ItemWrite (self t)) ws @
              (if (None :: error option) = None then [FlushNodes (self t) ?R] else [])\<rparr>)"
        by (simp add: Write_def Let_def emit_def)
      with w None dirtyItems_subseq [of ?R] show ?thesis
        by (intro exI [of _ "None"] exI [of _ ws]) simp
    qed
  qed
qed

theorem Write_order_witness:
  "(\<exists>t'. Write (exCollection [exRoot 1 exTree]) = Inr (None, t') \<and>
      trace t' = [ItemWrite 1 (ItemLoc None True (Some (exItem [97] [49] 1))),
                  ItemWrite 1 (ItemLoc None True (Some (exItem [98] [50] 5))),
                  FlushNodes 1 exTree]) \<and>
   dirtyItems exTree = inorder exTree \<and>
   (\<exists>t'. Write (exCollection [exRoot 1 exHalfPersisted]) = Inr (None, t') \<and>
      trace t' = [ItemWrite 1 (ItemLoc None True (Some (exItem [98] [50] 5))),
                  FlushNodes 1 exHalfPersisted]) \<and>
   (\<exists>t'. Write ((exCollection [exRoot 1 exTree])\<lparr>store := exFailingStore\<rparr>)
            = Inr (Some (StoreError IOError), t') \<and> trace t' = [])"
  using Write_order [of "exCollection [exRoot 1 exTree]" 0
          "snd (projr (rootAddRef (exCollection [exRoot 1 exTree])))"]
    Write_order [of "exCollection [exRoot 1 exHalfPersisted]" 0
          "snd (projr (rootAddRef (exCollection [exRoot 1 exHalfPersisted])))"]
    Write_order [of "(exCollection [exRoot 1 exTree])\<lparr>store := exFailingStore\<rparr>" 0
          "snd (projr (rootAddRef ((exCollection [exRoot 1 exTree])\<lparr>store := exFailingStore\<rparr>)))"]
  by (simp add: ex_defs run_defs)

text \<open>
  C9. \<open>GetTotals\<close> returns when the chain pointers point into the heap. When it returns:
  on an empty tree it gives \<open>(0, 0)\<close> and no error; otherwise it gives the fields
  \<open>numNodes\<close> and \<open>numBytes\<close> of the root node; and when every node of the tree has the
  counts of its children plus one node and plus the key and value lengths of its item,
  these are the number of items of a full visit in key order and the sum of the key and
  value lengths of those items (as \<open>uint64\<close>).
\<close>

theorem GetTotals_root_aggregates:
  assumes "rootAddRef t = Inr (rnl, t1)"
  shows
  "(wf_heap t \<longrightarrow> (\<exists>res t'. GetTotals t = Inr (res, t'))) \<and>
   (GetTotals t = Inr ((numItems, numBytes', err), t') \<longrightarrow>
     (nodeLoc_isEmpty (rnl_root (heap t ! rnl)) \<longrightarrow> numItems = 0 \<and> numBytes' = 0 \<and> err = None) \<and>
     (nodeLoc_read (store t) (rnl_root (heap t ! rnl)) = Inr (Some nd) \<and>
      \<not> nodeLoc_isEmpty (rnl_root (heap t ! rnl)) \<longrightarrow>
        numItems = numNodes nd \<and> numBytes' = numBytes nd \<and> err = None) \<and>
     (err = None \<and> counts_ok (rnl_root (heap t ! rnl)) \<longrightarrow>
        numItems = of_nat (length (inorder (rnl_root (heap t ! rnl)))) \<and>
        numBytes' = of_nat (sum_list (map itemBytes (inorder (rnl_root (heap t ! rnl)))))))"
proof -
  let ?R = "rnl_root (heap t ! rnl)"
  note fr = rootAddRef_frame [OF assms(1)]
  from fr have R: "rnl_root (heap t1 ! rnl) = ?R" by (simp add: same_but_refs_def)
  have returns: "wf_heap t \<longrightarrow> (\<exists>res t'. GetTotals t = Inr (res, t'))"
  proof
    assume wf: "wf_heap t"
    have wf1: "wf_heap t1"
      by (rule wf_heap_frame [OF wf]) (use fr in simp_all)
    let ?res = "case nodeLoc_read (store t1) (rnl_root (heap t1 ! rnl)) of
              Inl err \<Rightarrow> (0, 0, Some (StoreError err))
            | Inr None \<Rightarrow> (0, 0, None)
            | Inr (Some nNode) \<Rightarrow>
                if nodeLoc_isEmpty (rnl_root (heap t1 ! rnl)) then (0, 0, None)
                else (numNodes nNode, numBytes nNode, None)"
    from fr have "rnl < length (heap t1)" by simp
    from deferred_rootDecRef_returns [OF wf1 this, where res = ?res]
    obtain t' where "deferred_rootDecRef rnl ?res t1 = Inr (?res, t')" by blast
    with assms have "GetTotals t = Inr (?res, t')" by (simp add: GetTotals_def Let_def)
    then show "\<exists>res t'. GetTotals t = Inr (res, t')" by blast
  qed
  have result: "GetTotals t = Inr ((numItems, numBytes', err), t') \<longrightarrow>
     (nodeLoc_isEmpty ?R \<longrightarrow> numItems = 0 \<and> numBytes' = 0 \<and> err = None) \<and>
     (nodeLoc_read (store t) ?R = Inr (Some nd) \<and> \<not> nodeLoc_isEmpty ?R \<longrightarrow>
        numItems = numNodes nd \<and> numBytes' = numBytes nd \<and> err = None) \<and>
     (err = None \<and> counts_ok ?R \<longrightarrow>
        numItems = of_nat (length (inorder ?R)) \<and>
        numBytes' = of_nat (sum_list (map itemBytes (inorder ?R))))"
  proof
    assume gt: "GetTotals t = Inr ((numItems, numBytes', err), t')"
    from gt assms fr R have res: "(numItems, numBytes', err) =
      (case nodeLoc_read (store t) ?R of
              Inl e \<Rightarrow> (0, 0, Some (StoreError e))
            | Inr None \<Rightarrow> (0, 0, None)
            | Inr (Some nNode) \<Rightarrow>
                if nodeLoc_isEmpty ?R then (0, 0, None)
                else (numNodes nNode, numBytes nNode, None))"
      by (auto simp: GetTotals_def Let_def dest!: deferred_rootDecRef_res
               split: sum.splits option.splits)
    have empty: "nodeLoc_isEmpty ?R \<longrightarrow> numItems = 0 \<and> numBytes' = 0 \<and> err = None"
      using res by (auto simp: nodeLoc_read_def nodeLoc_isEmpty_def split: option.splits sum.splits)
    have fields: "nodeLoc_read (store t) ?R = Inr (Some nd) \<and> \<not> nodeLoc_isEmpty ?R \<longrightarrow>
        numItems = numNodes nd \<and> numBytes' = numBytes nd \<and> err = None"
      using res by auto
    have visit: "err = None \<and> counts_ok ?R \<longrightarrow>
        numItems = of_nat (length (inorder ?R)) \<and>
        numBytes' = of_nat (sum_list (map itemBytes (inorder ?R)))"
    proof
      assume a: "err = None \<and> counts_ok ?R"
      with res have "numItems = subNodes ?R \<and> numBytes' = subBytes ?R"
        by (auto simp: subNodes_def subBytes_def subtree_def nodeLoc_read_def nodeLoc_Node_def
                 nodeLoc_isEmpty_def split: sum.splits option.splits if_splits)
      with counts_ok_totals [of ?R] a show "numItems = of_nat (length (inorder ?R)) \<and>
        numBytes' = of_nat (sum_list (map itemBytes (inorder ?R)))" by simp
    qed
    from empty fields visit show "(nodeLoc_isEmpty ?R \<longrightarrow> numItems = 0 \<and> numBytes' = 0 \<and> err = None) \<and>
     (nodeLoc_read (store t) ?R = Inr (Some nd) \<and> \<not> nodeLoc_isEmpty ?R \<longrightarrow>
        numItems = numNodes nd \<and> numBytes' = numBytes nd \<and> err = None) \<and>
     (err = None \<and> counts_ok ?R \<longrightarrow>
        numItems = of_nat (length (inorder ?R)) \<and>
        numBytes' = of_nat (sum_list (map itemBytes (inorder ?R))))" by (intro conjI)
  qed
  from returns result show ?thesis by (rule conjI)
qed

theorem GetTotals_root_aggregates_witness:
  "(\<exists>t'. GetTotals (exCollection [exRoot 1 empty_nodeLoc]) = Inr ((0, 0, None), t')) \<and>
   (\<exists>t'. GetTotals (exCollection [exRoot 1 exTree]) = Inr ((2, 4, None), t')) \<and>
   wf_heap (exCollection [exRoot 1 exTree]) \<and>
   counts_ok exTree \<and> length (inorder exTree) = 2 \<and> sum_list (map itemBytes (inorder exTree)) = 4"
  using GetTotals_root_aggregates [of "exCollection [exRoot 1 empty_nodeLoc]" 0
          "snd (projr (rootAddRef (exCollection [exRoot 1 empty_nodeLoc])))" 0 0 None
          "snd (projr (GetTotals (exCollection [exRoot 1 empty_nodeLoc])))"]
    GetTotals_root_aggregates [of "exCollection [exRoot 1 exTree]" 0
          "snd (projr (rootAddRef (exCollection [exRoot 1 exTree])))" 2 4 None
          "snd (projr (GetTotals (exCollection [exRoot 1 exTree])))"
          "Node (ItemLoc None True (Some (exItem [98] [50] 5)))
                 (exLeaf (exItem [97] [49] 1)) empty_nodeLoc 2 4"]
  by (simp add: ex_defs run_defs wf_heap_def)

text \<open>
  C10. \<open>UnmarshalJSON\<close> swaps the decoded location in with the witness \<open>nil\<close>: when it
  returns no error the root was \<open>nil\<close> before, and the new root is a new \<open>rootNodeLoc\<close> on a
  cell that has the decoded location and no node in memory; on a \<open>nil\<close> root (which is what
  \<open>closeCollection\<close> leaves) it does succeed when the bytes decode; on any root that is not
  \<open>nil\<close> it returns an error and the root is the same as before.
\<close>

theorem UnmarshalJSON_nil_witness_CAS:
  "(UnmarshalJSON d t = Inr (None, t') \<longrightarrow>
      root t = None \<and>
      (\<exists>p. jsonUnmarshal (store t) d = Some p \<and> root t' = Some (length (heap t)) \<and>
           heap t' = heap t @ [\<lparr>refs = 1, rnl_root = NodeLoc (Some p) False (stored (store t) p),
                                 chainedCollection = None, chainedRootNodeLoc = None,
                                 reclaimLater = (None, None)\<rparr>])) \<and>
   (root t = None \<and> jsonUnmarshal (store t) d = Some p \<longrightarrow>
      (\<exists>t2. UnmarshalJSON d t = Inr (None, t2) \<and> root t2 = Some (length (heap t)))) \<and>
   (root t \<noteq> None \<longrightarrow>
      (\<exists>e t2. UnmarshalJSON d t = Inr (Some e, t2) \<and> root t2 = root t \<and>
         e = (if jsonUnmarshal (store t) d = None then JSONError else ConcurrentMutationUnmarshal))) \<and>
   (closeCollection t = Inr (u, t3) \<longrightarrow> root t3 = None)"
proof -
  have succeeds_only:
    "UnmarshalJSON d t = Inr (None, t') \<longrightarrow>
      root t = None \<and>
      (\<exists>p. jsonUnmarshal (store t) d = Some p \<and> root t' = Some (length (heap t)) \<and>
           heap t' = heap t @ [\<lparr>refs = 1, rnl_root = NodeLoc (Some p) False (stored (store t) p),
                                 chainedCollection = None, chainedRootNodeLoc = None,
                                 reclaimLater = (None, None)\<rparr>])"
    by (auto simp: UnmarshalJSON_def rootCAS_def mkRootNodeLoc_def mkNodeLoc_def Let_def
             split: option.splits if_splits)
  have succeeds:
    "root t = None \<and> jsonUnmarshal (store t) d = Some p \<longrightarrow>
      (\<exists>t2. UnmarshalJSON d t = Inr (None, t2) \<and> root t2 = Some (length (heap t)))"
    by (simp add: UnmarshalJSON_def rootCAS_def mkRootNodeLoc_def mkNodeLoc_def Let_def)
  have fails:
    "root t \<noteq> None \<longrightarrow>
      (\<exists>e t2. UnmarshalJSON d t = Inr (Some e, t2) \<and> root t2 = root t \<and>
         e = (if jsonUnmarshal (store t) d = None then JSONError else ConcurrentMutationUnmarshal))"
    by (auto simp: UnmarshalJSON_def rootCAS_def mkRootNodeLoc_def mkNodeLoc_def Let_def
             split: option.splits)
  have closed: "closeCollection t = Inr (u, t3) \<longrightarrow> root t3 = None"
    by (auto simp: closeCollection_def Let_def split: option.splits dest!: rootDecRef_frame)
  from succeeds_only succeeds fails closed show ?thesis
    by (intro conjI)
qed

theorem UnmarshalJSON_nil_witness_CAS_witness:
  "(\<exists>t2. UnmarshalJSON [] ((exCollection [])\<lparr>root := None\<rparr>) = Inr (None, t2) \<and>
         root t2 = Some 0 \<and> rnl_root (heap t2 ! 0) = NodeLoc (Some (Ploc 8 16)) False None) \<and>
   (\<exists>t2. UnmarshalJSON [] (exCollection [exRoot 1 empty_nodeLoc])
            = Inr (Some ConcurrentMutationUnmarshal, t2) \<and> root t2 = Some 0) \<and>
   (\<exists>t3. closeCollection (exCollection [exRoot 1 empty_nodeLoc]) = Inr ((), t3) \<and> root t3 = None)"
  using UnmarshalJSON_nil_witness_CAS [of "[]" "(exCollection [])\<lparr>root := None\<rparr>" _ "Ploc 8 16"]
    UnmarshalJSON_nil_witness_CAS [of "[]" "exCollection [exRoot 1 empty_nodeLoc]"]
  by (simp add: UnmarshalJSON_def rootCAS_def mkRootNodeLoc_def mkNodeLoc_def Let_def
        exCollection_def exRoot_def exStore_def treapStore_def closeCollection_def rootDecRef_def
        rootDecRef_unlocked_unfold decr_def)

end
